theory Spec2Isabelle
  imports Complex_Main "HOL-Library.Word"
begin

section \<open>Buffers and numbers\<close>

text \<open>
  A JavaScript \<open>number\<close> is modelled as a real, with \<open>NaN\<close> as \<open>None\<close> where it can
  arise (the square root of a negative number). The model computes with exact reals.
  Widths, heights, centres and radii are multiples of a half and their products multiples
  of a quarter; a square root of such a number that is not itself a multiple of a half is
  irrational.

  A \<open>Buffer\<close> is a byte array. An element access with a key that is not an integer
  inside the array touches no element: a write is dropped, a read gives \<open>undefined\<close>
  (here \<open>None\<close>), and \<open>undefined > 50\<close> is false.
\<close>

type_synonym byte = "8 word"

type_synonym buffer = "byte list"

definition ALPHA_OFFSET :: nat where
  "ALPHA_OFFSET = 3"

definition RGBA_CHANNELS :: nat where
  "RGBA_CHANNELS = 4"

definition valid_index :: "buffer \<Rightarrow> real \<Rightarrow> bool" where
  "valid_index buf i \<longleftrightarrow> of_int \<lfloor>i\<rfloor> = i \<and> 0 \<le> i \<and> i < real (length buf)"

definition buf_write :: "buffer \<Rightarrow> real \<Rightarrow> byte \<Rightarrow> buffer" where
  "buf_write buf i v = (if valid_index buf i then buf[nat \<lfloor>i\<rfloor> := v] else buf)"

definition buf_read :: "buffer \<Rightarrow> real \<Rightarrow> byte option" where
  "buf_read buf i = (if valid_index buf i then Some (buf ! nat \<lfloor>i\<rfloor>) else None)"

definition alloc :: "nat \<Rightarrow> buffer" where
  "alloc n = replicate n 0"

definition js_sqrt :: "real \<Rightarrow> real option" where
  "js_sqrt v = (if v < 0 then None else Some (sqrt v))"

section \<open>The scanline mask generator (index.ts)\<close>

text \<open>
  The inner loop \<open>for (let x = maxXLeft; x < minXRight; x++)\<close>: the loop variable is a
  number, not an integer, and the index \<open>(y * width + x) * RGBA_CHANNELS\<close> is computed
  from it as it is.
\<close>

function mask_cols :: "real \<Rightarrow> real \<Rightarrow> nat \<Rightarrow> nat \<Rightarrow> buffer \<Rightarrow> buffer" where
  "mask_cols x minXRight y width circle =
     (if x < minXRight
      then let idx = (real y * real width + x) * real RGBA_CHANNELS
           in mask_cols (x + 1) minXRight y width
                (buf_write circle (idx + real ALPHA_OFFSET) 255)
      else circle)"
  by pat_completeness auto
termination
  by (relation "measure (\<lambda>(x, minXRight, y, width, circle). nat \<lceil>minXRight - x\<rceil>)")
     (auto, linarith)

text \<open>
  The outer loop over the rows. When \<open>radius * radius - (y - cy) * (y - cy)\<close> is
  negative both bounds are \<open>NaN\<close>, the test \<open>x < minXRight\<close> fails at once and the row
  is left as it is.
\<close>

function mask_rows ::
  "nat \<Rightarrow> nat \<Rightarrow> nat \<Rightarrow> real \<Rightarrow> real \<Rightarrow> real \<Rightarrow> buffer \<Rightarrow> buffer" where
  "mask_rows y width height radius cx cy circle =
     (if y < height
      then mask_rows (y + 1) width height radius cx cy
             (case js_sqrt (radius * radius - (real y - cy) * (real y - cy)) of
                None \<Rightarrow> circle
              | Some s \<Rightarrow> mask_cols (cx - s) (cx + s) y width circle)
      else circle)"
  by pat_completeness auto
termination
  by (relation "measure (\<lambda>(y, width, height, radius, cx, cy, circle). height - y)") auto

text \<open>
  \<open>createCircularMask(width, height)\<close> in its raw mode: the buffer handed to the raster
  library and read back raw is the buffer the loops filled.
\<close>

definition createCircularMask :: "nat \<Rightarrow> nat \<Rightarrow> buffer" where
  "createCircularMask width height =
     (let radius = real (min width height) / 2;
          circle = alloc (width * height * RGBA_CHANNELS);
          cx = real width / 2;
          cy = real height / 2
      in mask_rows 0 width height radius cx cy circle)"

section \<open>The per-pixel mask generator (part 000)\<close>

function pixel_cols ::
  "nat \<Rightarrow> nat \<Rightarrow> nat \<Rightarrow> real \<Rightarrow> real \<Rightarrow> real \<Rightarrow> buffer \<Rightarrow> buffer" where
  "pixel_cols x y width radius cx cy circle =
     (if x < width
      then let dx = real x - cx;
               dy = real y - cy;
               distance = sqrt (dx * dx + dy * dy)
           in pixel_cols (x + 1) y width radius cx cy
                (if distance < radius
                 then let idx = real ((y * width + x) * RGBA_CHANNELS)
                      in buf_write circle (idx + real ALPHA_OFFSET) 255
                 else circle)
      else circle)"
  by pat_completeness auto
termination
  by (relation "measure (\<lambda>(x, y, width, radius, cx, cy, circle). width - x)") auto

function pixel_rows ::
  "nat \<Rightarrow> nat \<Rightarrow> nat \<Rightarrow> real \<Rightarrow> real \<Rightarrow> real \<Rightarrow> buffer \<Rightarrow> buffer" where
  "pixel_rows y width height radius cx cy circle =
     (if y < height
      then pixel_rows (y + 1) width height radius cx cy
             (pixel_cols 0 y width radius cx cy circle)
      else circle)"
  by pat_completeness auto
termination
  by (relation "measure (\<lambda>(y, width, height, radius, cx, cy, circle). height - y)") auto

definition createCircularMask_pixel :: "nat \<Rightarrow> nat \<Rightarrow> buffer" where
  "createCircularMask_pixel width height =
     (let radius = real (min width height) / 2;
          circle = alloc (width * height * RGBA_CHANNELS);
          cx = real width / 2;
          cy = real height / 2
      in pixel_rows 0 width height radius cx cy circle)"

text \<open>
  The writes of the scanline generator as a list of the indices it computes, in the order
  of the loops; \<open>mask_cols_fold\<close> and \<open>createCircularMask_fold\<close> below show that the
  buffer is the result of these writes.
\<close>

function mask_cols_indices :: "real \<Rightarrow> real \<Rightarrow> nat \<Rightarrow> nat \<Rightarrow> real list" where
  "mask_cols_indices x minXRight y width =
     (if x < minXRight
      then let idx = (real y * real width + x) * real RGBA_CHANNELS
           in (idx + real ALPHA_OFFSET) # mask_cols_indices (x + 1) minXRight y width
      else [])"
  by pat_completeness auto
termination
  by (relation "measure (\<lambda>(x, minXRight, y, width). nat \<lceil>minXRight - x\<rceil>)")
     (auto, linarith)

function mask_rows_indices ::
  "nat \<Rightarrow> nat \<Rightarrow> nat \<Rightarrow> real \<Rightarrow> real \<Rightarrow> real \<Rightarrow> real list" where
  "mask_rows_indices y width height radius cx cy =
     (if y < height
      then (case js_sqrt (radius * radius - (real y - cy) * (real y - cy)) of
              None \<Rightarrow> []
            | Some s \<Rightarrow> mask_cols_indices (cx - s) (cx + s) y width)
           @ mask_rows_indices (y + 1) width height radius cx cy
      else [])"
  by pat_completeness auto
termination
  by (relation "measure (\<lambda>(y, width, height, radius, cx, cy). height - y)") auto

definition createCircularMask_indices :: "nat \<Rightarrow> nat \<Rightarrow> real list" where
  "createCircularMask_indices width height =
     mask_rows_indices 0 width height
       (real (min width height) / 2) (real width / 2) (real height / 2)"

section \<open>Colour conversion\<close>


section \<open>Binary64 arithmetic\<close>

text \<open>
  The mood decision compares computed numbers with the bounds 50, 220, 0.5 and 0.6, and its
  outcome at the bounds depends on the rounding of every operation. For this part a
  number is a real that binary64 represents, and every operation rounds its exact result
  to the nearest such number, ties to the even significand. The exponent is not bounded:
  no value of the colour computation comes near overflow or the subnormal range. A
  decimal literal denotes the binary64 number nearest to it; the integer literals and
  0.5 are exact.
\<close>

definition round_even :: "real \<Rightarrow> int" where
  "round_even q =
     (let f = \<lfloor>q\<rfloor>; d = q - of_int f
      in if d < 1 / 2 then f else if 1 / 2 < d then f + 1 else if even f then f else f + 1)"

definition expo :: "real \<Rightarrow> int" where
  "expo x = \<lfloor>log 2 \<bar>x\<bar>\<rfloor>"

definition round64 :: "real \<Rightarrow> real" where
  "round64 x =
     (if x = 0 then 0
      else of_int (round_even (x / 2 powi (expo x - 52))) * 2 powi (expo x - 52))"

definition fadd :: "real \<Rightarrow> real \<Rightarrow> real" where
  "fadd x y = round64 (x + y)"

definition fsub :: "real \<Rightarrow> real \<Rightarrow> real" where
  "fsub x y = round64 (x - y)"

definition fmul :: "real \<Rightarrow> real \<Rightarrow> real" where
  "fmul x y = round64 (x * y)"

definition fdiv :: "real \<Rightarrow> real \<Rightarrow> real" where
  "fdiv x y = round64 (x / y)"

text \<open>
  \<open>rgbToHsl\<close> as the code computes it, every operation rounded. The channels are
  integers from 0 to 255; \<open>2 - max - min\<close> is \<open>(2 - max) - min\<close>.
\<close>

definition rgbToHsl64 :: "real \<Rightarrow> real \<Rightarrow> real \<Rightarrow> real \<times> real \<times> real" where
  "rgbToHsl64 r0 g0 b0 =
     (let r = fdiv r0 255;
          g = fdiv g0 255;
          b = fdiv b0 255;
          max_c = max (max r g) b;
          min_c = min (min r g) b;
          l = fdiv (fadd max_c min_c) 2
      in if max_c \<noteq> min_c
         then let d = fsub max_c min_c;
                  s = (if l > 0.5 then fdiv d (fsub (fsub 2 max_c) min_c)
                       else fdiv d (fadd max_c min_c));
                  h = (if max_c = r then fadd (fdiv (fsub g b) d) (if g < b then 6 else 0)
                       else if max_c = g then fadd (fdiv (fsub b r) d) 2
                       else if max_c = b then fadd (fdiv (fsub r g) d) 4
                       else 0)
              in (fmul h 60, s, l)
         else (0, 0, l))"

definition happyHueRange_min :: real where "happyHueRange_min = 50"
definition happyHueRange_max :: real where "happyHueRange_max = 220"
definition minSaturation :: real where "minSaturation = 0.5"
definition minLightness :: real where "minLightness = round64 0.6"
definition weightHue :: real where "weightHue = round64 0.7"
definition weightSaturation :: real where "weightSaturation = round64 0.2"
definition weightLightness :: real where "weightLightness = round64 0.1"
definition threshold :: real where "threshold = round64 0.6"

text \<open>The score \<open>totalScore\<close> of \<open>isHappyColorHSL\<close>, from the three components.\<close>

definition totalScore :: "real \<times> real \<times> real \<Rightarrow> real" where
  "totalScore hsl =
     (case hsl of (h, s, l) \<Rightarrow>
        let hueScore = (if h \<ge> happyHueRange_min \<and> h \<le> happyHueRange_max then 1 else 0);
            saturationScore = (if s \<ge> minSaturation then 1 else 0);
            lightnessScore = (if l \<ge> minLightness then 1 else 0)
        in fadd (fadd (fmul hueScore weightHue) (fmul saturationScore weightSaturation))
             (fmul lightnessScore weightLightness))"

section \<open>The circularity check (index.ts)\<close>

datatype error = Error (message: string)

definition visible :: "byte option \<Rightarrow> bool" where
  "visible v = (case v of None \<Rightarrow> False | Some a \<Rightarrow> unat a > 50)"

text \<open>
  Both inner loops of \<open>checkIfCircular\<close> have this shape: the left one runs from
  \<open>minXLeft = 0\<close> to \<open>maxXLeft\<close>, the right one from \<open>minXRight\<close> to
  \<open>maxXRight = width\<close>.
\<close>

function check_cols :: "real \<Rightarrow> real \<Rightarrow> nat \<Rightarrow> nat \<Rightarrow> buffer \<Rightarrow> error + unit" where
  "check_cols x hi y width rawImage =
     (if x < hi
      then if visible (buf_read rawImage
                ((real y * real width + x) * real RGBA_CHANNELS + real ALPHA_OFFSET))
           then Inl (Error ''Image has non-transparent pixels outside the circle.'')
           else check_cols (x + 1) hi y width rawImage
      else Inr ())"
  by pat_completeness auto
termination
  by (relation "measure (\<lambda>(x, hi, y, width, rawImage). nat \<lceil>hi - x\<rceil>)")
     (auto, linarith)

function check_rows ::
  "nat \<Rightarrow> nat \<Rightarrow> nat \<Rightarrow> real \<Rightarrow> real \<Rightarrow> real \<Rightarrow> buffer \<Rightarrow> error + unit" where
  "check_rows y width height radius cx cy rawImage =
     (if y < height
      then (case js_sqrt (radius * radius - (real y - cy) * (real y - cy)) of
              None \<Rightarrow> check_rows (y + 1) width height radius cx cy rawImage
            | Some s \<Rightarrow>
                (case check_cols 0 (cx - s) y width rawImage of
                   Inl e \<Rightarrow> Inl e
                 | Inr _ \<Rightarrow>
                     (case check_cols (cx + s) (real width) y width rawImage of
                        Inl e \<Rightarrow> Inl e
                      | Inr _ \<Rightarrow> check_rows (y + 1) width height radius cx cy rawImage)))
      else Inr ())"
  by pat_completeness auto
termination
  by (relation "measure (\<lambda>(y, width, height, radius, cx, cy, rawImage). height - y)") auto

section \<open>The raster library, the files and the command\<close>

text \<open>
  The raster library is a parameter: what it decodes, reports and composes is not decided
  by this program. The model covers the inputs the library accepts.
\<close>

record color =
  r :: real
  g :: real
  b :: real

record metadata =
  format :: string
  width :: nat
  height :: nat

text \<open>
  In \<open>metadata\<close> a width or height of 0 stands for every value the test
  \<open>!metadata.width\<close> rejects (\<open>undefined\<close> and 0).
\<close>

record sharp =
  toPng :: "buffer \<Rightarrow> buffer"
  toRaw :: "buffer \<Rightarrow> buffer"
  readMetadata :: "buffer \<Rightarrow> metadata"
  dominant :: "buffer \<Rightarrow> color"
  rawToPng :: "buffer \<Rightarrow> nat \<Rightarrow> nat \<Rightarrow> buffer"
  compositeDestIn :: "buffer \<Rightarrow> buffer \<Rightarrow> buffer"

record options =
  check :: bool

record state =
  files :: "string \<rightharpoonup> buffer"
  stdout :: "string list"
  stderr :: "string list"

definition isHappyColorHSL :: "color \<Rightarrow> bool" where
  "isHappyColorHSL color \<longleftrightarrow>
     totalScore (rgbToHsl64 (r color) (g color) (b color)) \<ge> threshold"

definition detectHappiness :: "sharp \<Rightarrow> buffer \<Rightarrow> bool" where
  "detectHappiness lib imageBuffer =
     (let dom = dominant lib imageBuffer
      in isHappyColorHSL \<lparr>r = r dom, g = g dom, b = b dom\<rparr>)"

text \<open>
  \<open>checkIfCircular\<close> receives the image buffer by reference; the model returns the
  buffer as the call leaves it, next to the outcome.
\<close>

definition checkIfCircular ::
  "sharp \<Rightarrow> buffer \<Rightarrow> nat \<Rightarrow> nat \<Rightarrow> (error + unit) \<times> buffer" where
  "checkIfCircular lib imageBuffer w h =
     (let rawImage = toRaw lib imageBuffer;
          radius = real (min w h) / 2;
          cx = real w / 2;
          cy = real h / 2
      in (check_rows 0 w h radius cx cy rawImage, imageBuffer))"

definition console_log :: "string \<Rightarrow> state \<Rightarrow> state" where
  "console_log msg st = st\<lparr>stdout := stdout st @ [msg]\<rparr>"

definition console_error :: "string \<Rightarrow> state \<Rightarrow> state" where
  "console_error msg st = st\<lparr>stderr := stderr st @ [msg]\<rparr>"

definition checkImage :: "sharp \<Rightarrow> metadata \<Rightarrow> buffer \<Rightarrow> state \<Rightarrow> error + state" where
  "checkImage lib md imageBuffer st =
     (if width md > 512 \<or> height md > 512
      then Inl (Error ''Image dimensions exceed 512x512 pixels.'')
      else case checkIfCircular lib imageBuffer (width md) (height md) of
             (Inl e, _) \<Rightarrow> Inl e
           | (Inr _, imageBuffer') \<Rightarrow>
               if \<not> detectHappiness lib imageBuffer'
               then Inl (Error ''Image does not convey a happy feeling.'')
               else Inr (console_log
                      ''Image is valid, circular, and conveys a happy feeling.'' st))"

text \<open>The mask in its encoded mode (\<open>raw = false\<close>).\<close>

definition createCircularMask_encoded :: "sharp \<Rightarrow> nat \<Rightarrow> nat \<Rightarrow> buffer" where
  "createCircularMask_encoded lib w h = rawToPng lib (createCircularMask w h) w h"

text \<open>The body of the command's \<open>try\<close> block, and the command with its \<open>catch\<close>.\<close>

definition action_body :: "sharp \<Rightarrow> string \<Rightarrow> options \<Rightarrow> state \<Rightarrow> error + state" where
  "action_body lib filepath opts st =
     (case files st filepath of
        None \<Rightarrow> Inl (Error ''File does not exist.'')
      | Some img \<Rightarrow>
          let imageBuffer = toPng lib img;
              md = readMetadata lib img
          in if width md = 0 \<or> height md = 0
             then Inl (Error ''Failed to read image metadata.'')
             else if check opts
             then if format md \<noteq> ''png''
                  then Inl (Error ''Image format is not PNG.'')
                  else checkImage lib md imageBuffer st
             else let circleMask = createCircularMask_encoded lib (width md) (height md);
                      out = compositeDestIn lib imageBuffer circleMask
                  in Inr (console_log ''Image is now circular in the output.png file!''
                       (st\<lparr>files := (files st)(''output.png'' \<mapsto> out)\<rparr>)))"

definition action :: "sharp \<Rightarrow> string \<Rightarrow> options \<Rightarrow> state \<Rightarrow> state" where
  "action lib filepath opts st =
     (case action_body lib filepath opts st of
        Inl e \<Rightarrow> console_error (''Validation failed: '' @ message e) st
      | Inr st' \<Rightarrow> st')"

section \<open>Closed forms used in the proofs\<close>

text \<open>
  The definitions of this section are not part of the program. They describe, in integer
  arithmetic that can be evaluated, which bytes the two generators set; the lemmas
  \<open>scan_closed_form\<close> and \<open>pixel_closed_form\<close> prove that they describe the loops
  above.
\<close>

definition row_hit :: "nat \<Rightarrow> real \<Rightarrow> real \<Rightarrow> real \<Rightarrow> nat \<Rightarrow> nat \<Rightarrow> bool" where
  "row_hit w radius cx cy y i \<longleftrightarrow>
     (\<exists>s. \<exists>k::nat. js_sqrt (radius * radius - (real y - cy) * (real y - cy)) = Some s \<and>
        cx - s + real k < cx + s \<and>
        real i = (real y * real w + (cx - s + real k)) * 4 + 3)"

definition exact_sqrt :: "int \<Rightarrow> nat option" where
  "exact_sqrt q = find (\<lambda>u. int u * int u = q) [0..<Suc (nat q)]"

definition row_q :: "nat \<Rightarrow> nat \<Rightarrow> nat \<Rightarrow> int" where
  "row_q w h y = (int (min w h))\<^sup>2 - (2 * int y - int h)\<^sup>2"

definition scan_px :: "nat \<Rightarrow> nat \<Rightarrow> nat \<Rightarrow> nat \<Rightarrow> nat \<Rightarrow> byte" where
  "scan_px w h y x c =
     (case exact_sqrt (row_q w h y) of
        None \<Rightarrow> 0
      | Some u \<Rightarrow>
          if even (w + u)
          then (if c = 3 \<and> w \<le> 2 * x + u \<and> 2 * x < w + u then 255 else 0)
          else (if c = 1 \<and> w + 1 \<le> 2 * x + u \<and> 2 * x + 1 \<le> w + u then 255 else 0))"

definition scan_byte :: "nat \<Rightarrow> nat \<Rightarrow> nat \<Rightarrow> byte" where
  "scan_byte w h i = scan_px w h ((i div 4) div w) ((i div 4) mod w) (i mod 4)"

definition pixel_px :: "nat \<Rightarrow> nat \<Rightarrow> nat \<Rightarrow> nat \<Rightarrow> nat \<Rightarrow> byte" where
  "pixel_px w h y x c =
     (if c = 3 \<and> (2 * int x - int w)\<^sup>2 + (2 * int y - int h)\<^sup>2 < (int (min w h))\<^sup>2
      then 255 else 0)"

definition pixel_byte :: "nat \<Rightarrow> nat \<Rightarrow> nat \<Rightarrow> byte" where
  "pixel_byte w h i = pixel_px w h ((i div 4) div w) ((i div 4) mod w) (i mod 4)"

definition inside :: "real \<Rightarrow> real \<Rightarrow> real \<Rightarrow> nat \<Rightarrow> nat \<Rightarrow> bool" where
  "inside radius cx cy y x \<longleftrightarrow>
     sqrt ((real x - cx) * (real x - cx) + (real y - cy) * (real y - cy)) < radius"

section \<open>The specification's interval, and a library instance for examples\<close>

text \<open>
  The interior of row \<open>y\<close> as the specification words it: the integer columns \<open>x\<close> with
  \<open>left \<le> x < right\<close>, none when the row lies outside the circle's vertical extent.
\<close>

definition interior :: "nat \<Rightarrow> nat \<Rightarrow> nat \<Rightarrow> nat \<Rightarrow> bool" where
  "interior w h y x =
     (let radius = real (min w h) / 2; cx = real w / 2; cy = real h / 2
      in case js_sqrt (radius * radius - (real y - cy) * (real y - cy)) of
           None \<Rightarrow> False
         | Some s \<Rightarrow> cx - s \<le> real x \<and> real x < cx + s)"

text \<open>
  An instance of the raster library for the examples: buffers are their own encoding, and
  every file is reported as a 3 by 3 JPEG with a green dominant colour.
\<close>

definition id_lib :: sharp where
  "id_lib = \<lparr>toPng = (\<lambda>img. img), toRaw = (\<lambda>buf. buf),
             readMetadata = (\<lambda>img. \<lparr>format = ''jpeg'', width = 3, height = 3\<rparr>),
             dominant = (\<lambda>buf. \<lparr>r = 0, g = 150, b = 0\<rparr>),
             rawToPng = (\<lambda>buf w h. buf),
             compositeDestIn = (\<lambda>img mask. img)\<rparr>"

definition one_file :: state where
  "one_file = \<lparr>files = [''badge.jpeg'' \<mapsto> []], stdout = [], stderr = []\<rparr>"

text \<open>
  The condition of the specification's circularity check: some pixel outside the
  interior interval of its row has alpha above 50.
\<close>

definition exterior_violation :: "buffer \<Rightarrow> nat \<Rightarrow> nat \<Rightarrow> bool" where
  "exterior_violation rawImage w h \<longleftrightarrow>
     (\<exists>y<h. \<exists>x<w. \<not> interior w h y x \<and> unat (rawImage ! (4 * (y * w + x) + 3)) > 50)"

text \<open>The bounds \<open>maxXLeft\<close> and \<open>minXRight\<close> of row \<open>y\<close>, \<open>None\<close> when they are \<open>NaN\<close>.\<close>

definition row_bounds :: "nat \<Rightarrow> nat \<Rightarrow> nat \<Rightarrow> (real \<times> real) option" where
  "row_bounds w h y =
     (let radius = real (min w h) / 2; cx = real w / 2; cy = real h / 2
      in case js_sqrt (radius * radius - (real y - cy) * (real y - cy)) of
           None \<Rightarrow> None
         | Some s \<Rightarrow> Some (cx - s, cx + s))"

declare mask_cols.simps [simp del] mask_rows.simps [simp del]
  pixel_cols.simps [simp del] pixel_rows.simps [simp del]
  mask_cols_indices.simps [simp del] mask_rows_indices.simps [simp del]
  check_cols.simps [simp del] check_rows.simps [simp del]

section \<open>Buffer accesses\<close>

lemma length_buf_write [simp]: "length (buf_write buf i v) = length buf"
  by (simp add: buf_write_def)

lemma buf_write_nth:
  "i < length buf \<Longrightarrow> buf_write buf j v ! i = (if real i = j then v else buf ! i)"
proof (cases "valid_index buf j")
  case True
  assume i: "i < length buf"
  from True have j: "j = real (nat \<lfloor>j\<rfloor>)" and lt: "nat \<lfloor>j\<rfloor> < length buf"
    unfolding valid_index_def by (auto simp: of_nat_nat floor_less_iff nat_less_iff)
  have "real i = j \<longleftrightarrow> i = nat \<lfloor>j\<rfloor>"
    using j by (metis of_nat_eq_iff)
  with True i show ?thesis
    by (auto simp: buf_write_def)
next
  case False
  assume i: "i < length buf"
  have "real i \<noteq> j"
  proof
    assume "real i = j"
    with i have "valid_index buf j" unfolding valid_index_def by (auto intro: exI[of _ "int i"])
    with False show False by simp
  qed
  with False show ?thesis by (simp add: buf_write_def)
qed

lemma length_mask_cols [simp]: "length (mask_cols x hi y w c) = length c"
proof (induction x hi y w c rule: mask_cols.induct)
  case (1 x hi y w c)
  show ?case
  proof (cases "x < hi")
    case True
    with 1 show ?thesis by (subst mask_cols.simps) (simp add: Let_def)
  next
    case False
    then show ?thesis by (subst mask_cols.simps) simp
  qed
qed

lemma mask_cols_nth:
  "i < length c \<Longrightarrow>
   mask_cols x hi y w c ! i =
     (if \<exists>k::nat. x + real k < hi \<and> real i = (real y * real w + (x + real k)) * 4 + 3
      then 255 else c ! i)"
proof (induction x hi y w c rule: mask_cols.induct)
  case (1 x hi y w c)
  show ?case
  proof (cases "x < hi")
    case False
    have "\<not> (\<exists>k::nat. x + real k < hi \<and> real i = (real y * real w + (x + real k)) * 4 + 3)"
      using False by (auto; linarith)
    with False show ?thesis by (subst mask_cols.simps) simp
  next
    case True
    let ?c' = "buf_write c ((real y * real w + x) * real RGBA_CHANNELS + real ALPHA_OFFSET) 255"
    have step: "mask_cols x hi y w c = mask_cols (x + 1) hi y w ?c'"
      using True by (subst mask_cols.simps) (simp add: Let_def)
    have ih: "mask_cols (x + 1) hi y w ?c' ! i =
       (if \<exists>k::nat. x + 1 + real k < hi \<and> real i = (real y * real w + (x + 1 + real k)) * 4 + 3
        then 255 else ?c' ! i)"
      using 1(1)[OF True refl] 1(2) by simp
    have c': "?c' ! i = (if real i = (real y * real w + x) * 4 + 3 then 255 else c ! i)"
      using 1(2) by (simp add: buf_write_nth RGBA_CHANNELS_def ALPHA_OFFSET_def)
    have ex: "(\<exists>k::nat. x + real k < hi \<and> real i = (real y * real w + (x + real k)) * 4 + 3) \<longleftrightarrow>
         real i = (real y * real w + x) * 4 + 3 \<or>
         (\<exists>k::nat. x + 1 + real k < hi \<and> real i = (real y * real w + (x + 1 + real k)) * 4 + 3)"
      (is "?L \<longleftrightarrow> ?A \<or> ?B")
    proof
      assume ?L
      then obtain k :: nat where k: "x + real k < hi" "real i = (real y * real w + (x + real k)) * 4 + 3"
        by blast
      show "?A \<or> ?B"
      proof (cases k)
        case 0
        with k show ?thesis by simp
      next
        case (Suc j)
        with k have "x + 1 + real j < hi \<and> real i = (real y * real w + (x + 1 + real j)) * 4 + 3"
          by (simp add: algebra_simps)
        then show ?thesis by blast
      qed
    next
      assume "?A \<or> ?B"
      then show ?L
      proof
        assume ?A
        with True have "x + real (0::nat) < hi \<and> real i = (real y * real w + (x + real (0::nat))) * 4 + 3"
          by simp
        then show ?L by blast
      next
        assume ?B
        then obtain j :: nat where "x + 1 + real j < hi" "real i = (real y * real w + (x + 1 + real j)) * 4 + 3"
          by blast
        then have "x + real (Suc j) < hi \<and> real i = (real y * real w + (x + real (Suc j))) * 4 + 3"
          by (simp add: algebra_simps)
        then show ?L by blast
      qed
    qed
    show ?thesis
      unfolding step ih c' ex by auto
  qed
qed

lemma length_mask_rows [simp]: "length (mask_rows y w h rad cx cy c) = length c"
proof (induction y w h rad cx cy c rule: mask_rows.induct)
  case (1 y w h rad cx cy c)
  show ?case
  proof (cases "y < h")
    case True
    with 1 show ?thesis by (subst mask_rows.simps) (simp split: option.splits)
  next
    case False
    then show ?thesis by (subst mask_rows.simps) simp
  qed
qed

lemma mask_rows_nth:
  "i < length c \<Longrightarrow>
   mask_rows y0 w h rad cx cy c ! i =
     (if \<exists>y. y0 \<le> y \<and> y < h \<and> row_hit w rad cx cy y i then 255 else c ! i)"
proof (induction y0 w h rad cx cy c rule: mask_rows.induct)
  case (1 y0 w h rad cx cy c)
  show ?case
  proof (cases "y0 < h")
    case False
    then have "\<not> (\<exists>y. y0 \<le> y \<and> y < h \<and> row_hit w rad cx cy y i)" by auto
    moreover have "mask_rows y0 w h rad cx cy c = c"
      using False by (subst mask_rows.simps) simp
    ultimately show ?thesis by auto
  next
    case True
    let ?c' = "case js_sqrt (rad * rad - (real y0 - cy) * (real y0 - cy)) of
                 None \<Rightarrow> c | Some s \<Rightarrow> mask_cols (cx - s) (cx + s) y0 w c"
    have len: "length ?c' = length c" by (simp split: option.splits)
    have step: "mask_rows y0 w h rad cx cy c = mask_rows (y0 + 1) w h rad cx cy ?c'"
      using True by (subst mask_rows.simps) simp
    have ih: "mask_rows (y0 + 1) w h rad cx cy ?c' ! i =
       (if \<exists>y. y0 + 1 \<le> y \<and> y < h \<and> row_hit w rad cx cy y i then 255 else ?c' ! i)"
      using 1(1)[OF True] 1(2) len by simp
    have c': "?c' ! i = (if row_hit w rad cx cy y0 i then 255 else c ! i)"
      using 1(2) by (auto simp: row_hit_def mask_cols_nth split: option.splits)
    have ex: "(\<exists>y. y0 \<le> y \<and> y < h \<and> row_hit w rad cx cy y i) \<longleftrightarrow>
        row_hit w rad cx cy y0 i \<or> (\<exists>y. y0 + 1 \<le> y \<and> y < h \<and> row_hit w rad cx cy y i)"
      using True by (metis Suc_eq_plus1 Suc_leI le_eq_less_or_eq le_refl less_le_trans lessI not_less_eq_eq order_less_imp_le)
    show ?thesis unfolding step ih c' ex by auto
  qed
qed

lemma row_value:
  "real (min w h) / 2 * (real (min w h) / 2) - (real y - real h / 2) * (real y - real h / 2) =
   real_of_int ((int (min w h))\<^sup>2 - (2 * int y - int h)\<^sup>2) / 4"
  by (simp add: power2_eq_square field_simps)

lemma even_square_int:
  fixes n :: int
  assumes "n * n = 4 * q" "0 \<le> n"
  shows "\<exists>u::nat. int u * int u = q \<and> n = 2 * int u"
proof -
  have "even (n * n)" using assms by simp
  then have "even n" by simp
  then obtain m where m: "n = 2 * m" by (elim evenE)
  with assms have "m * m = q" "0 \<le> m" by auto
  then have "int (nat m) * int (nat m) = q \<and> n = 2 * int (nat m)" using m by simp
  then show ?thesis by blast
qed

lemma row_hit_int:
  fixes w h y i :: nat
  defines "q \<equiv> (int (min w h))\<^sup>2 - (2 * int y - int h)\<^sup>2"
  shows "row_hit w (real (min w h) / 2) (real w / 2) (real h / 2) y i \<longleftrightarrow>
     (\<exists>u k::nat. int u * int u = q \<and> k < u \<and> i + 2 * u = 4 * (y * w) + 2 * w + 4 * k + 3)"
    (is "?L \<longleftrightarrow> ?R")
proof
  assume ?L
  then obtain s and k :: nat where
    sq: "js_sqrt (real_of_int q / 4) = Some s" and
    lt: "real w / 2 - s + real k < real w / 2 + s" and
    idx: "real i = (real y * real w + (real w / 2 - s + real k)) * 4 + 3"
    unfolding row_hit_def row_value q_def by blast
  from sq have v: "0 \<le> real_of_int q / 4" and s: "s = sqrt (real_of_int q / 4)"
    by (auto simp: js_sqrt_def split: if_splits)
  from v s have s0: "0 \<le> s" and ss: "s * s = real_of_int q / 4" by simp_all
  define n :: int where "n = 4 * (int y * int w) + 2 * int w + 4 * int k + 3 - int i"
  have n: "real_of_int n = 4 * s" using idx by (simp add: n_def algebra_simps)
  with s0 have n0: "0 \<le> n" by linarith
  have "real_of_int (n * n) = real_of_int (4 * q)"
    using n ss by simp
  then have "n * n = 4 * q" by (simp only: of_int_eq_iff)
  from even_square_int[OF this n0] obtain u :: nat where
    u: "int u * int u = q" "n = 2 * int u" by blast
  from n u have su: "s = real u / 2" by simp
  from lt su have "k < u" by simp
  moreover from u(2) have "int (i + 2 * u) = int (4 * (y * w) + 2 * w + 4 * k + 3)"
    by (simp add: n_def)
  then have "i + 2 * u = 4 * (y * w) + 2 * w + 4 * k + 3" by (simp only: of_nat_eq_iff)
  ultimately show ?R using u(1) by blast
next
  assume ?R
  then obtain u k :: nat where
    u: "int u * int u = q" and k: "k < u" and i: "i + 2 * u = 4 * (y * w) + 2 * w + 4 * k + 3"
    by blast
  have qu: "real_of_int q / 4 = (real u / 2) * (real u / 2)"
    using u[symmetric] by simp
  have "sqrt (real_of_int q / 4) = real u / 2"
    unfolding qu by (rule real_sqrt_unique) (simp_all add: power2_eq_square)
  moreover have "0 \<le> real_of_int q / 4" unfolding qu by simp
  ultimately have sq: "js_sqrt (real_of_int q / 4) = Some (real u / 2)"
    by (simp add: js_sqrt_def)
  have lt: "real w / 2 - real u / 2 + real k < real w / 2 + real u / 2"
    using k by simp
  have "real (i + 2 * u) = real (4 * (y * w) + 2 * w + 4 * k + 3)" using i by simp
  then have idx: "real i = (real y * real w + (real w / 2 - real u / 2 + real k)) * 4 + 3"
    by (simp add: algebra_simps)
  show ?L
    unfolding row_hit_def row_value q_def[symmetric]
    using sq lt idx by blast
qed

lemma square_inj_nat: "int u * int u = int v * int v \<Longrightarrow> u = v"
proof -
  assume "int u * int u = int v * int v"
  then have "u * u = v * v" by (metis of_nat_eq_iff of_nat_mult)
  then show "u = v"
    by (metis less_linear mult_strict_mono' le0 nat_neq_iff)
qed

lemma exact_sqrt_Some_iff: "exact_sqrt q = Some u \<longleftrightarrow> int u * int u = q"
proof
  assume "exact_sqrt q = Some u"
  then show "int u * int u = q"
    by (auto simp: exact_sqrt_def find_Some_iff)
next
  assume u: "int u * int u = q"
  have "u \<le> u * u" by (cases u) simp_all
  then have "int u \<le> q" using u by (metis of_nat_le_iff of_nat_mult)
  then have lt: "u < Suc (nat q)" by linarith
  have "\<forall>j<u. int ([0..<Suc (nat q)] ! j) * int ([0..<Suc (nat q)] ! j) \<noteq> q"
  proof (intro allI impI)
    fix j assume j: "j < u"
    with lt have "[0..<Suc (nat q)] ! j = j" by (metis add_0 less_trans nth_upt)
    moreover have "int j * int j \<noteq> q"
      using square_inj_nat[of j u] u j by auto
    ultimately show "int ([0..<Suc (nat q)] ! j) * int ([0..<Suc (nat q)] ! j) \<noteq> q" by simp
  qed
  moreover have "[0..<Suc (nat q)] ! u = u" using lt by (metis add_0 nth_upt)
  ultimately show "exact_sqrt q = Some u"
    unfolding exact_sqrt_def find_Some_iff using lt u
    by (intro exI[of _ u]) simp
qed

lemma exact_sqrt_None_iff: "exact_sqrt q = None \<longleftrightarrow> (\<forall>u. int u * int u \<noteq> q)"
  by (metis exact_sqrt_Some_iff not_Some_eq)

lemma root_le_width:
  assumes "int u * int u = row_q w h y"
  shows "u \<le> w"
proof (rule ccontr)
  assume "\<not> u \<le> w"
  then have "min w h < u" by simp
  then have "min w h * min w h < u * u"
    by (metis le0 mult_strict_mono' )
  then have "(int (min w h))\<^sup>2 < int u * int u"
    unfolding power2_eq_square by (metis of_nat_less_iff of_nat_mult)
  moreover have "row_q w h y \<le> (int (min w h))\<^sup>2"
    by (simp add: row_q_def)
  ultimately show False using assms by simp
qed

lemma same_row:
  fixes y y' w a b :: nat
  assumes "4 * (y * w) + a = 4 * (y' * w) + b" "a < 4 * w" "b < 4 * w"
  shows "y = y'"
proof (rule ccontr)
  assume "y \<noteq> y'"
  then consider "y < y'" | "y' < y" by linarith
  then show False
  proof cases
    case 1
    then have "Suc y * w \<le> y' * w" by (intro mult_le_mono1) simp
    with assms show False by simp
  next
    case 2
    then have "Suc y' * w \<le> y * w" by (intro mult_le_mono1) simp
    with assms show False by simp
  qed
qed

lemma parity_even:
  fixes w u :: nat
  assumes "u \<le> w" "even (w + u)"
  obtains d where "w = u + 2 * d"
proof -
  from assms have "even (w - u)" by simp
  then obtain d where "w - u = 2 * d" by (elim evenE)
  with assms(1) have "w = u + 2 * d" by simp
  then show ?thesis by (rule that)
qed

lemma parity_odd:
  fixes w u :: nat
  assumes "u \<le> w" "odd (w + u)"
  obtains d where "w = u + 2 * d + 1"
proof -
  from assms have "odd (w - u)" by simp
  then obtain d where "w - u = 2 * d + 1" by (elim oddE)
  with assms(1) have "w = u + 2 * d + 1" by simp
  then show ?thesis by (rule that)
qed

lemma hit_iff_scan_px:
  fixes w h y x c :: nat
  assumes "y < h" "x < w" "c < 4"
  shows "(\<exists>y'. 0 \<le> y' \<and> y' < h \<and>
            row_hit w (real (min w h) / 2) (real w / 2) (real h / 2) y' (4 * (y * w + x) + c))
         \<longleftrightarrow> scan_px w h y x c = 255"
    (is "?L \<longleftrightarrow> ?R")
proof
  assume ?L
  then obtain y' u k where y': "y' < h" and u: "int u * int u = row_q w h y'" and k: "k < u"
    and i: "4 * (y * w + x) + c + 2 * u = 4 * (y' * w) + 2 * w + 4 * k + 3"
    unfolding row_hit_int row_q_def by blast
  from root_le_width[OF u] have uw: "u \<le> w" .
  have "4 * (y * w) + (4 * x + c) = 4 * (y' * w) + (2 * w + 4 * k + 3 - 2 * u)"
    using i uw by simp
  moreover have "4 * x + c < 4 * w" using assms by simp
  moreover have "2 * w + 4 * k + 3 - 2 * u < 4 * w" using uw k by simp
  ultimately have yy: "y = y'" by (rule same_row)
  with u have e: "exact_sqrt (row_q w h y) = Some u" by (simp add: exact_sqrt_Some_iff)
  from i yy have j: "4 * x + c + 2 * u = 2 * w + 4 * k + 3" by simp
  show ?R
  proof (cases "even (w + u)")
    case True
    with uw obtain d where d: "w = u + 2 * d" by (rule parity_even)
    from j d have "4 * x + c = 4 * (d + k) + 3" by simp
    with assms(3) have "c = 3 \<and> x = d + k" by arith
    with d k have "c = 3 \<and> w \<le> 2 * x + u \<and> 2 * x < w + u" by simp
    with e True show ?thesis by (simp add: scan_px_def)
  next
    case False
    with uw obtain d where d: "w = u + 2 * d + 1" by (rule parity_odd)
    from j d have "4 * x + c = 4 * (d + k + 1) + 1" by simp
    with assms(3) have "c = 1 \<and> x = d + k + 1" by arith
    with d k have "c = 1 \<and> w + 1 \<le> 2 * x + u \<and> 2 * x + 1 \<le> w + u" by simp
    with e False show ?thesis by (simp add: scan_px_def)
  qed
next
  assume R: ?R
  then obtain u where e: "exact_sqrt (row_q w h y) = Some u"
    by (cases "exact_sqrt (row_q w h y)") (auto simp: scan_px_def)
  then have u: "int u * int u = row_q w h y" by (simp add: exact_sqrt_Some_iff)
  from root_le_width[OF u] have uw: "u \<le> w" .
  have "\<exists>k. k < u \<and> 4 * x + c + 2 * u = 2 * w + 4 * k + 3"
  proof (cases "even (w + u)")
    case True
    with uw obtain d where d: "w = u + 2 * d" by (rule parity_even)
    from True R e have "c = 3 \<and> w \<le> 2 * x + u \<and> 2 * x < w + u"
      by (auto simp: scan_px_def split: if_splits)
    with d have "x - d < u \<and> 4 * x + c + 2 * u = 2 * w + 4 * (x - d) + 3" by arith
    then show ?thesis by blast
  next
    case False
    with uw obtain d where d: "w = u + 2 * d + 1" by (rule parity_odd)
    from False R e have "c = 1 \<and> w + 1 \<le> 2 * x + u \<and> 2 * x + 1 \<le> w + u"
      by (auto simp: scan_px_def split: if_splits)
    with d have "x - d - 1 < u \<and> 4 * x + c + 2 * u = 2 * w + 4 * (x - d - 1) + 3" by arith
    then show ?thesis by blast
  qed
  then obtain k where k: "k < u" and "4 * x + c + 2 * u = 2 * w + 4 * k + 3"
    by blast
  then have "4 * (y * w + x) + c + 2 * u = 4 * (y * w) + 2 * w + 4 * k + 3"
    by simp
  with k u assms(1) show ?L
    unfolding row_hit_int row_q_def by blast
qed

lemma scan_nth:
  assumes "y < h" "x < w" "c < 4"
  shows "createCircularMask w h ! (4 * (y * w + x) + c) = scan_px w h y x c"
proof -
  have "y * w + x < h * w"
  proof -
    have "y * w + x < Suc y * w" using assms by simp
    also have "\<dots> \<le> h * w" using assms by (intro mult_le_mono1) simp
    finally show ?thesis .
  qed
  then have len: "4 * (y * w + x) + c < length (alloc (w * h * RGBA_CHANNELS))"
    using assms by (simp add: alloc_def RGBA_CHANNELS_def mult.commute)
  have z: "alloc (w * h * RGBA_CHANNELS) ! (4 * (y * w + x) + c) = 0"
    using len by (simp add: alloc_def)
  have vals: "scan_px w h y x c = 255 \<or> scan_px w h y x c = 0"
    by (auto simp: scan_px_def split: option.splits)
  show ?thesis
    unfolding createCircularMask_def Let_def
    using mask_rows_nth[OF len, of 0 w h] hit_iff_scan_px[OF assms] z vals
    by auto
qed

lemma length_createCircularMask [simp]: "length (createCircularMask w h) = w * h * 4"
  by (simp add: createCircularMask_def alloc_def RGBA_CHANNELS_def)

lemma index_split:
  fixes w h i :: nat
  assumes "i < w * h * 4"
  shows "(i div 4) div w < h" "(i div 4) mod w < w" "i mod 4 < 4"
    "i = 4 * (((i div 4) div w) * w + (i div 4) mod w) + i mod 4"
proof -
  from assms have w: "0 < w" by (cases w) simp_all
  from assms have "i div 4 < w * h" by simp
  then have "i div 4 < h * w" by (simp add: mult.commute)
  then show "(i div 4) div w < h" using w by (simp add: less_mult_imp_div_less)
  show "(i div 4) mod w < w" using w by simp
  show "i mod 4 < 4" by simp
  show "i = 4 * (((i div 4) div w) * w + (i div 4) mod w) + i mod 4" by simp
qed

text \<open>
  What the scanline generator produces. Row \<open>y\<close> is touched only when
  \<open>min(width, height)\<^sup>2 - (2y - height)\<^sup>2\<close> is a perfect square \<open>u\<^sup>2\<close>. When
  \<open>width - u\<close> is even the bounds are integers and the alpha bytes of the columns of
  \<open>[left, right)\<close> are set; when it is odd the bounds are half-integers and the green
  bytes of the columns from \<open>left + 1/2\<close> to \<open>right - 1/2\<close> are set instead.
\<close>

lemma scan_closed_form: "createCircularMask w h = map (scan_byte w h) [0..<w * h * 4]"
proof (rule nth_equalityI)
  show "length (createCircularMask w h) = length (map (scan_byte w h) [0..<w * h * 4])"
    by simp
next
  fix i assume "i < length (createCircularMask w h)"
  then have i: "i < w * h * 4" by simp
  note s = index_split[OF i]
  have "createCircularMask w h ! i =
        createCircularMask w h ! (4 * (((i div 4) div w) * w + (i div 4) mod w) + i mod 4)"
    using s(4) by simp
  also have "\<dots> = scan_byte w h i"
    unfolding scan_byte_def by (rule scan_nth[OF s(1) s(2) s(3)])
  finally show "createCircularMask w h ! i = map (scan_byte w h) [0..<w * h * 4] ! i"
    using i by simp
qed

lemma length_pixel_cols [simp]: "length (pixel_cols x y w rad cx cy c) = length c"
proof (induction x y w rad cx cy c rule: pixel_cols.induct)
  case (1 x y w rad cx cy c)
  show ?case
  proof (cases "x < w")
    case True
    with 1 show ?thesis by (subst pixel_cols.simps) (simp add: Let_def)
  next
    case False
    then show ?thesis by (subst pixel_cols.simps) simp
  qed
qed

lemma length_pixel_rows [simp]: "length (pixel_rows y w h rad cx cy c) = length c"
proof (induction y w h rad cx cy c rule: pixel_rows.induct)
  case (1 y w h rad cx cy c)
  show ?case
  proof (cases "y < h")
    case True
    with 1 show ?thesis by (subst pixel_rows.simps) simp
  next
    case False
    then show ?thesis by (subst pixel_rows.simps) simp
  qed
qed

lemma length_createCircularMask_pixel [simp]:
  "length (createCircularMask_pixel w h) = w * h * 4"
  by (simp add: createCircularMask_pixel_def alloc_def RGBA_CHANNELS_def)

lemma ex_first_or_later:
  fixes a b :: nat
  assumes "a < b"
  shows "(\<exists>n. a \<le> n \<and> n < b \<and> P n) \<longleftrightarrow> P a \<or> (\<exists>n. a + 1 \<le> n \<and> n < b \<and> P n)"
proof
  assume "\<exists>n. a \<le> n \<and> n < b \<and> P n"
  then obtain n where n: "a \<le> n" "n < b" "P n" by blast
  show "P a \<or> (\<exists>n. a + 1 \<le> n \<and> n < b \<and> P n)"
  proof (cases "n = a")
    case True
    with n show ?thesis by simp
  next
    case False
    with n have "a + 1 \<le> n" by simp
    with n show ?thesis by blast
  qed
next
  assume "P a \<or> (\<exists>n. a + 1 \<le> n \<and> n < b \<and> P n)"
  then show "\<exists>n. a \<le> n \<and> n < b \<and> P n"
  proof
    assume "P a"
    with assms show ?thesis by blast
  next
    assume "\<exists>n. a + 1 \<le> n \<and> n < b \<and> P n"
    then obtain n where "a + 1 \<le> n" "n < b" "P n" by blast
    then have "a \<le> n \<and> n < b \<and> P n" by simp
    then show ?thesis by blast
  qed
qed

lemma pixel_cols_nth:
  "i < length c \<Longrightarrow>
   pixel_cols x0 y w rad cx cy c ! i =
     (if \<exists>x. x0 \<le> x \<and> x < w \<and> inside rad cx cy y x \<and> i = 4 * (y * w + x) + 3
      then 255 else c ! i)"
proof (induction x0 y w rad cx cy c rule: pixel_cols.induct)
  case (1 x0 y w rad cx cy c)
  let ?Q = "\<lambda>x. inside rad cx cy y x \<and> i = 4 * (y * w + x) + 3"
  let ?later = "\<exists>x. x0 + 1 \<le> x \<and> x < w \<and> ?Q x"
  let ?t = "if sqrt ((real x0 - cx) * (real x0 - cx) + (real y - cy) * (real y - cy)) < rad
            then let idx = real ((y * w + x0) * RGBA_CHANNELS)
                 in buf_write c (idx + real ALPHA_OFFSET) 255
            else c"
  show ?case
  proof (cases "x0 < w")
    case False
    then have "pixel_cols x0 y w rad cx cy c = c" by (subst pixel_cols.simps) simp
    moreover have "\<not> (\<exists>x. x0 \<le> x \<and> x < w \<and> ?Q x)"
      using False by auto
    ultimately show ?thesis by (simp only: if_False)
  next
    case True
    have ex: "(\<exists>x. x0 \<le> x \<and> x < w \<and> ?Q x) \<longleftrightarrow> ?Q x0 \<or> ?later"
      by (rule ex_first_or_later[OF True])
    show ?thesis
    proof (cases "inside rad cx cy y x0")
      case ins: True
      let ?c' = "buf_write c (real ((y * w + x0) * RGBA_CHANNELS) + real ALPHA_OFFSET) 255"
      have step: "pixel_cols x0 y w rad cx cy c = pixel_cols (x0 + 1) y w rad cx cy ?c'"
        using True ins by (subst pixel_cols.simps) (simp add: Let_def inside_def)
      have eq: "?t = ?c'"
        using ins unfolding inside_def Let_def by (rule if_P)
      have len: "i < length ?t" unfolding eq using 1(2) by simp
      have ih: "pixel_cols (x0 + 1) y w rad cx cy ?c' ! i = (if ?later then 255 else ?c' ! i)"
        using 1(1)[OF True refl refl refl len] unfolding eq .
      have "real ((y * w + x0) * RGBA_CHANNELS) + real ALPHA_OFFSET = real (4 * (y * w + x0) + 3)"
        by (simp add: RGBA_CHANNELS_def ALPHA_OFFSET_def)
      then have c': "?c' ! i = (if i = 4 * (y * w + x0) + 3 then 255 else c ! i)"
        using buf_write_nth[OF 1(2), of "real (4 * (y * w + x0) + 3)" 255]
        by (simp only: of_nat_eq_iff)
      define A where "A \<longleftrightarrow> ?later"
      define B where "B \<longleftrightarrow> i = 4 * (y * w + x0) + 3"
      have "(if (True \<and> B) \<or> A then 255 else c ! i) =
            (if A then 255 else if B then 255 else c ! i)"
        by simp
      then show ?thesis unfolding step ih c' ex A_def B_def using ins by (simp only: simp_thms)
    next
      case out: False
      have step: "pixel_cols x0 y w rad cx cy c = pixel_cols (x0 + 1) y w rad cx cy c"
        using True out by (subst pixel_cols.simps) (simp add: Let_def inside_def)
      have eq: "?t = c"
        using out unfolding inside_def Let_def by (rule if_not_P)
      have len: "i < length ?t" unfolding eq using 1(2) .
      have ih: "pixel_cols (x0 + 1) y w rad cx cy c ! i = (if ?later then 255 else c ! i)"
        using 1(1)[OF True refl refl refl len] unfolding eq .
      show ?thesis unfolding step ih ex using out by (simp only: simp_thms)
    qed
  qed
qed

lemma pixel_rows_nth:
  "i < length c \<Longrightarrow>
   pixel_rows y0 w h rad cx cy c ! i =
     (if \<exists>y x. y0 \<le> y \<and> y < h \<and> x < w \<and> inside rad cx cy y x \<and> i = 4 * (y * w + x) + 3
      then 255 else c ! i)"
proof (induction y0 w h rad cx cy c rule: pixel_rows.induct)
  case (1 y0 w h rad cx cy c)
  let ?P = "\<lambda>y. \<exists>x. x < w \<and> inside rad cx cy y x \<and> i = 4 * (y * w + x) + 3"
  show ?case
  proof (cases "y0 < h")
    case False
    then have "pixel_rows y0 w h rad cx cy c = c" by (subst pixel_rows.simps) simp
    moreover have "\<not> (\<exists>y. y0 \<le> y \<and> y < h \<and> ?P y)"
      using False by auto
    ultimately show ?thesis by auto
  next
    case True
    let ?c' = "pixel_cols 0 y0 w rad cx cy c"
    have step: "pixel_rows y0 w h rad cx cy c = pixel_rows (y0 + 1) w h rad cx cy ?c'"
      using True by (subst pixel_rows.simps) simp
    have len: "i < length ?c'" using 1(2) by simp
    have ih: "pixel_rows (y0 + 1) w h rad cx cy ?c' ! i =
       (if \<exists>y. y0 + 1 \<le> y \<and> y < h \<and> ?P y then 255 else ?c' ! i)"
      using 1(1)[OF True len] by simp
    have c': "?c' ! i = (if ?P y0 then 255 else c ! i)"
      using 1(2) by (simp add: pixel_cols_nth)
    have ex: "(\<exists>y. y0 \<le> y \<and> y < h \<and> ?P y) \<longleftrightarrow> ?P y0 \<or> (\<exists>y. y0 + 1 \<le> y \<and> y < h \<and> ?P y)"
      by (rule ex_first_or_later[OF True])
    have "pixel_rows y0 w h rad cx cy c ! i = (if \<exists>y. y0 \<le> y \<and> y < h \<and> ?P y then 255 else c ! i)"
      unfolding step ih c' ex by auto
    then show ?thesis by auto
  qed
qed

lemma inside_int:
  "inside (real (min w h) / 2) (real w / 2) (real h / 2) y x \<longleftrightarrow>
   (2 * int x - int w)\<^sup>2 + (2 * int y - int h)\<^sup>2 < (int (min w h))\<^sup>2"
proof -
  let ?A = "(real x - real w / 2) * (real x - real w / 2) +
            (real y - real h / 2) * (real y - real h / 2)"
  let ?r = "real (min w h) / 2"
  have rad: "sqrt (?r * ?r) = ?r" by (rule real_sqrt_unique) (simp_all add: power2_eq_square)
  have "sqrt ?A < ?r \<longleftrightarrow> sqrt ?A < sqrt (?r * ?r)" by (simp only: rad)
  also have "\<dots> \<longleftrightarrow> ?A < ?r * ?r" by (rule real_sqrt_less_iff)
  also have "\<dots> \<longleftrightarrow> real_of_int ((2 * int x - int w)\<^sup>2 + (2 * int y - int h)\<^sup>2)
                        < real_of_int ((int (min w h))\<^sup>2)"
  proof -
    have a: "?A = real_of_int ((2 * int x - int w)\<^sup>2 + (2 * int y - int h)\<^sup>2) / 4"
      by (simp add: power2_eq_square field_simps)
    have b: "?r * ?r = real_of_int ((int (min w h))\<^sup>2) / 4"
      by (simp add: power2_eq_square)
    show ?thesis unfolding a b by (simp only: divide_less_cancel) simp
  qed
  also have "\<dots> \<longleftrightarrow> (2 * int x - int w)\<^sup>2 + (2 * int y - int h)\<^sup>2 < (int (min w h))\<^sup>2"
    by (rule of_int_less_iff)
  finally show ?thesis unfolding inside_def .
qed

lemma same_cell:
  fixes y y' w a b :: nat
  assumes "y * w + a = y' * w + b" "a < w" "b < w"
  shows "y = y' \<and> a = b"
proof -
  have "4 * (y * w) + 4 * a = 4 * (y' * w) + 4 * b" using assms(1) by simp
  moreover have "4 * a < 4 * w" "4 * b < 4 * w" using assms by simp_all
  ultimately have "y = y'" by (rule same_row)
  with assms(1) show ?thesis by simp
qed

lemma pixel_nth:
  assumes "y < h" "x < w" "c < 4"
  shows "createCircularMask_pixel w h ! (4 * (y * w + x) + c) = pixel_px w h y x c"
proof -
  let ?r = "real (min w h) / 2" and ?cx = "real w / 2" and ?cy = "real h / 2"
  let ?i = "4 * (y * w + x) + c"
  have "y * w + x < h * w"
  proof -
    have "y * w + x < Suc y * w" using assms by simp
    also have "\<dots> \<le> h * w" using assms by (intro mult_le_mono1) simp
    finally show ?thesis .
  qed
  then have len: "?i < length (alloc (w * h * RGBA_CHANNELS))"
    using assms by (simp add: alloc_def RGBA_CHANNELS_def mult.commute)
  have z: "alloc (w * h * RGBA_CHANNELS) ! ?i = 0"
    using len by (simp add: alloc_def)
  have ex: "(\<exists>y' x'. 0 \<le> y' \<and> y' < h \<and> x' < w \<and> inside ?r ?cx ?cy y' x' \<and>
                ?i = 4 * (y' * w + x') + 3) \<longleftrightarrow> c = 3 \<and> inside ?r ?cx ?cy y x"
    (is "?L \<longleftrightarrow> ?R")
  proof
    assume ?L
    then obtain y' x' where a: "y' < h" "x' < w" "inside ?r ?cx ?cy y' x'"
      "4 * (y * w + x) + c = 4 * (y' * w + x') + 3" by blast
    from a(4) assms(3) have c: "c = 3" and "y * w + x = y' * w + x'" by arith+
    from same_cell[OF this(2) assms(2) a(2)] a(3) c show ?R by simp
  next
    assume ?R
    with assms show ?L by blast
  qed
  have "createCircularMask_pixel w h ! ?i = (if c = 3 \<and> inside ?r ?cx ?cy y x then 255 else 0)"
    unfolding createCircularMask_pixel_def Let_def pixel_rows_nth[OF len] ex z ..
  then show ?thesis
    unfolding pixel_px_def inside_int .
qed

text \<open>
  What the per-pixel generator produces: alpha 255 at the pixels whose distance to the
  centre is below the radius, and 0 everywhere else.
\<close>

lemma pixel_closed_form:
  "createCircularMask_pixel w h = map (pixel_byte w h) [0..<w * h * 4]"
proof (rule nth_equalityI)
  show "length (createCircularMask_pixel w h) = length (map (pixel_byte w h) [0..<w * h * 4])"
    by simp
next
  fix i assume "i < length (createCircularMask_pixel w h)"
  then have i: "i < w * h * 4" by simp
  note s = index_split[OF i]
  have "createCircularMask_pixel w h ! i =
        createCircularMask_pixel w h ! (4 * (((i div 4) div w) * w + (i div 4) mod w) + i mod 4)"
    using s(4) by simp
  also have "\<dots> = pixel_byte w h i"
    unfolding pixel_byte_def by (rule pixel_nth[OF s(1) s(2) s(3)])
  finally show "createCircularMask_pixel w h ! i = map (pixel_byte w h) [0..<w * h * 4] ! i"
    using i by simp
qed

section \<open>Colour conversion and mood\<close>








section \<open>Binary64 rounding\<close>

lemma powi_powr: "(2::real) powi e = 2 powr (of_int e)"
  by (simp add: powr_real_of_int')

lemma expo_unique:
  assumes "2 powi e \<le> \<bar>x\<bar>" "\<bar>x\<bar> < 2 powi (e + 1)"
  shows "expo x = e"
proof -
  have "0 < (2::real) powi e" by simp
  with assms have "0 < \<bar>x\<bar>" by linarith
  then show ?thesis
    unfolding expo_def using assms
    by (subst floor_log_eq_powr_iff) (simp_all add: powi_powr)
qed

lemma expo_bracket:
  assumes "x \<noteq> 0"
  shows "2 powi expo x \<le> \<bar>x\<bar>" "\<bar>x\<bar> < 2 powi (expo x + 1)"
proof -
  have "0 < \<bar>x\<bar>" using assms by simp
  then have "2 powr (of_int (expo x)) \<le> \<bar>x\<bar> \<and> \<bar>x\<bar> < 2 powr (of_int (expo x + 1))"
    using floor_log_eq_powr_iff[of "\<bar>x\<bar>" 2 "expo x"] by (simp add: expo_def)
  then show "2 powi expo x \<le> \<bar>x\<bar>" "\<bar>x\<bar> < 2 powi (expo x + 1)"
    by (simp_all add: powi_powr)
qed

lemma round_even_of_int [simp]: "round_even (of_int k) = k"
  by (simp add: round_even_def)

lemma round_even_bounds: "of_int \<lfloor>q\<rfloor> \<le> (of_int (round_even q) :: real)"
  "round_even q \<le> \<lfloor>q\<rfloor> + 1"
  by (simp_all add: round_even_def Let_def)

lemma round_even_mono:
  assumes "p \<le> q"
  shows "round_even p \<le> round_even q"
proof (cases "\<lfloor>p\<rfloor> = \<lfloor>q\<rfloor>")
  case True
  with assms show ?thesis
    by (auto simp: round_even_def Let_def)
next
  case False
  with assms have "\<lfloor>p\<rfloor> < \<lfloor>q\<rfloor>" by (simp add: floor_mono less_le)
  then have "round_even p \<le> \<lfloor>q\<rfloor>" using round_even_bounds(2)[of p] by linarith
  also have "\<dots> \<le> round_even q" using round_even_bounds(1)[of q] by simp
  finally show ?thesis .
qed

lemma round_even_error: "\<bar>of_int (round_even q) - q\<bar> \<le> 1 / 2"
  unfolding round_even_def Let_def by (auto; linarith)

lemma round_even_minus: "round_even (- q) = - round_even q"
proof (cases "q \<in> \<int>")
  case True
  then obtain k where "q = of_int k" by (elim Ints_cases)
  then have "- q = of_int (- k)" by simp
  then show ?thesis using \<open>q = of_int k\<close> by (metis round_even_of_int)
next
  case False
  then have "q \<noteq> of_int \<lfloor>q\<rfloor>" by (metis Ints_of_int)
  then have f: "\<lfloor>- q\<rfloor> = - \<lfloor>q\<rfloor> - 1"
    by (simp add: floor_minus ceiling_altdef)
  have d: "- q - of_int \<lfloor>- q\<rfloor> = 1 - (q - of_int \<lfloor>q\<rfloor>)" by (simp add: f)
  show ?thesis
    unfolding round_even_def Let_def d f by auto
qed

lemma ulp_split: "(2::real) powi e = 2 ^ 52 * 2 powi (e - 52)"
  "(2::real) powi (e + 1) = 2 ^ 53 * 2 powi (e - 52)"
proof -
  have "(2::real) powi e = 2 powi (52 + (e - 52))" by simp
  also have "\<dots> = 2 powi 52 * 2 powi (e - 52)" by (subst power_int_add) simp_all
  finally show "(2::real) powi e = 2 ^ 52 * 2 powi (e - 52)" by simp
  have "e + 1 = 53 + (e - 52)" by simp
  then have "(2::real) powi (e + 1) = 2 powi (53 + (e - 52))" by (simp only:)
  also have "\<dots> = 2 powi 53 * 2 powi (e - 52)" by (subst power_int_add) simp_all
  finally show "(2::real) powi (e + 1) = 2 ^ 53 * 2 powi (e - 52)" by simp
qed

lemma scaled_bracket:
  fixes x :: real
  assumes "2 powi e \<le> \<bar>x\<bar>" "\<bar>x\<bar> < 2 powi (e + 1)"
  shows "2 ^ 52 \<le> \<bar>x / 2 powi (e - 52)\<bar>" "\<bar>x / 2 powi (e - 52)\<bar> < 2 ^ 53"
proof -
  have u: "0 < (2::real) powi (e - 52)" by simp
  have a: "\<bar>x / 2 powi (e - 52)\<bar> = \<bar>x\<bar> / 2 powi (e - 52)" by (simp add: abs_divide)
  show "2 ^ 52 \<le> \<bar>x / 2 powi (e - 52)\<bar>"
    unfolding a using assms(1) u by (simp add: ulp_split(1)[of e] pos_le_divide_eq)
  show "\<bar>x / 2 powi (e - 52)\<bar> < 2 ^ 53"
    unfolding a using assms(2) u by (simp add: ulp_split(2)[of e] pos_divide_less_eq)
qed

lemma round64_0 [simp]: "round64 0 = 0"
  by (simp add: round64_def)

lemma round64_eval:
  assumes "2 powi e \<le> \<bar>x\<bar>" "\<bar>x\<bar> < 2 powi (e + 1)"
  shows "round64 x = of_int (round_even (x / 2 powi (e - 52))) * 2 powi (e - 52)"
proof -
  have "x \<noteq> 0"
  proof
    assume "x = 0"
    with assms(1) have "(2::real) powi e \<le> 0" by simp
    moreover have "0 < (2::real) powi e" by simp
    ultimately show False by linarith
  qed
  then show ?thesis by (simp add: round64_def expo_unique[OF assms])
qed

lemma round64_exact:
  assumes "2 powi e \<le> \<bar>x\<bar>" "\<bar>x\<bar> < 2 powi (e + 1)" "x / 2 powi (e - 52) = of_int k"
  shows "round64 x = x"
proof -
  have "round64 x = of_int k * 2 powi (e - 52)"
    unfolding round64_eval[OF assms(1,2)] assms(3) by simp
  also have "\<dots> = x" using assms(3)[symmetric] by simp
  finally show ?thesis .
qed

lemma expo_minus [simp]: "expo (- x) = expo x"
  by (simp add: expo_def)

lemma round64_minus: "round64 (- x) = - round64 x"
  by (simp add: round64_def round_even_minus)

lemma round64_pos_bounds:
  assumes "0 < x"
  shows "2 powi expo x \<le> round64 x" "round64 x \<le> 2 powi (expo x + 1)"
proof -
  let ?u = "(2::real) powi (expo x - 52)"
  let ?q = "x / ?u"
  from assms have nz: "x \<noteq> 0" by simp
  have u: "0 < ?u" by simp
  have q0: "0 < ?q" using assms u by simp
  from scaled_bracket[OF expo_bracket[OF nz]] q0
  have q: "2 ^ 52 \<le> ?q" "?q < 2 ^ 53" by simp_all
  have "round_even (of_int (2 ^ 52)) \<le> round_even ?q"
    by (rule round_even_mono) (use q in simp)
  then have lo: "(2::real) ^ 52 \<le> of_int (round_even ?q)"
    unfolding round_even_of_int by (metis of_int_le_iff of_int_numeral of_int_power)
  have "round_even ?q \<le> round_even (of_int (2 ^ 53))"
    by (rule round_even_mono) (use q in simp)
  then have hi: "of_int (round_even ?q) \<le> (2::real) ^ 53"
    unfolding round_even_of_int by (metis of_int_le_iff of_int_numeral of_int_power)
  have r: "round64 x = of_int (round_even ?q) * ?u" using nz by (simp add: round64_def)
  show "2 powi expo x \<le> round64 x"
    unfolding r ulp_split(1)[of "expo x"] using lo u by (intro mult_right_mono) simp_all
  show "round64 x \<le> 2 powi (expo x + 1)"
    unfolding r ulp_split(2)[of "expo x"] using hi u by (intro mult_right_mono) simp_all
qed

lemma round64_pos: "0 < x \<Longrightarrow> 0 < round64 x"
  using round64_pos_bounds(1)[of x] zero_less_power_int[of "2::real" "expo x"] by linarith

lemma round64_neg: "x < 0 \<Longrightarrow> round64 x < 0"
  using round64_pos[of "- x"] by (simp add: round64_minus)

lemma expo_mono:
  assumes "0 < x" "x \<le> y"
  shows "expo x \<le> expo y"
proof (rule ccontr)
  assume "\<not> expo x \<le> expo y"
  then have "expo y + 1 \<le> expo x" by simp
  then have "(2::real) powi (expo y + 1) \<le> 2 powi expo x"
    by (intro power_int_increasing) simp_all
  moreover have "2 powi expo x \<le> \<bar>x\<bar>" using assms by (intro expo_bracket) simp
  moreover have "\<bar>y\<bar> < 2 powi (expo y + 1)" using assms by (intro expo_bracket) simp
  ultimately show False using assms by simp
qed

lemma round64_mono_pos:
  assumes "0 < x" "x \<le> y"
  shows "round64 x \<le> round64 y"
proof (cases "expo x = expo y")
  case True
  let ?u = "(2::real) powi (expo y - 52)"
  have u: "0 < ?u" by simp
  have "x / ?u \<le> y / ?u" using assms u by (simp add: divide_right_mono)
  then have "round_even (x / ?u) \<le> round_even (y / ?u)" by (rule round_even_mono)
  then have "(of_int (round_even (x / ?u)) :: real) \<le> of_int (round_even (y / ?u))" by simp
  then have "of_int (round_even (x / ?u)) * ?u \<le> of_int (round_even (y / ?u)) * ?u"
    using u by (intro mult_right_mono) simp_all
  then show ?thesis using assms True by (simp add: round64_def)
next
  case False
  with expo_mono[OF assms] have "expo x + 1 \<le> expo y" by simp
  then have "(2::real) powi (expo x + 1) \<le> 2 powi expo y"
    by (intro power_int_increasing) simp_all
  moreover have "round64 x \<le> 2 powi (expo x + 1)" using assms by (intro round64_pos_bounds) 
  moreover have "2 powi expo y \<le> round64 y" using assms by (intro round64_pos_bounds) simp
  ultimately show ?thesis by linarith
qed

lemma round64_mono:
  assumes "x \<le> y"
  shows "round64 x \<le> round64 y"
proof -
  consider "0 < x" | "x = 0" | "x < 0" "y < 0" | "x < 0" "0 \<le> y" by linarith
  then show ?thesis
  proof cases
    case 1
    then show ?thesis using assms by (rule round64_mono_pos)
  next
    case 2
    show ?thesis
    proof (cases "y = 0")
      case True
      with 2 show ?thesis by simp
    next
      case False
      with 2 assms have "0 < y" by simp
      from round64_pos[OF this] 2 show ?thesis by simp
    qed
  next
    case 3
    then have "0 < - y" "- y \<le> - x" using assms by simp_all
    from round64_mono_pos[OF this] show ?thesis by (simp add: round64_minus)
  next
    case 4
    have "round64 x < 0" using 4(1) by (rule round64_neg)
    moreover have "0 \<le> round64 y"
    proof (cases "y = 0")
      case True
      then show ?thesis by simp
    next
      case False
      with 4 have "0 < y" by simp
      from round64_pos[OF this] show ?thesis by simp
    qed
    ultimately show ?thesis by simp
  qed
qed

lemma round64_repr_pos:
  fixes k :: int
  assumes "2 ^ 52 \<le> k" "k \<le> 2 ^ 53"
  shows "round64 (of_int k * 2 powi j) = of_int k * 2 powi j"
proof (cases "k = 2 ^ 53")
  case True
  let ?x = "real_of_int k * 2 powi j"
  have x: "?x = 2 powi (j + 53)"
    unfolding True by (subst power_int_add) (simp_all add: mult.commute)
  show ?thesis
  proof (rule round64_exact[where e = "j + 53" and k = "2 ^ 52"])
    show "2 powi (j + 53) \<le> \<bar>?x\<bar>" unfolding x by simp
    show "\<bar>?x\<bar> < 2 powi (j + 53 + 1)"
      unfolding x by (simp add: power_int_strict_increasing)
    have "(2::real) powi (j + 53) = 2 ^ 52 * 2 powi (j + 53 - 52)" by (rule ulp_split(1))
    then show "?x / 2 powi (j + 53 - 52) = real_of_int (2 ^ 52)"
      unfolding x by simp
  qed
next
  case False
  let ?x = "real_of_int k * 2 powi j"
  have k: "(2::real) ^ 52 \<le> of_int k" "real_of_int k < 2 ^ 53"
  proof -
    have "real_of_int (2 ^ 52) \<le> of_int k" using assms(1) by (simp only: of_int_le_iff)
    then show "(2::real) ^ 52 \<le> of_int k" by simp
    have "k < 2 ^ 53" using assms(2) False by simp
    then have "real_of_int k < of_int (2 ^ 53)" by (simp only: of_int_less_iff)
    then show "real_of_int k < 2 ^ 53" by simp
  qed
  have u: "0 < (2::real) powi j" by simp
  have ax: "\<bar>?x\<bar> = of_int k * 2 powi j" using k(1) by (simp add: abs_mult)
  show ?thesis
  proof (rule round64_exact[where e = "j + 52" and k = k])
    have "(2::real) powi (j + 52) = 2 ^ 52 * 2 powi (j + 52 - 52)" by (rule ulp_split(1))
    then have a: "(2::real) powi (j + 52) = 2 ^ 52 * 2 powi j" by simp
    show "2 powi (j + 52) \<le> \<bar>?x\<bar>"
      unfolding ax a using k(1) u by (intro mult_right_mono) simp_all
    have "(2::real) powi (j + 52 + 1) = 2 ^ 53 * 2 powi (j + 52 - 52)" by (rule ulp_split(2))
    then have b: "(2::real) powi (j + 52 + 1) = 2 ^ 53 * 2 powi j" by simp
    show "\<bar>?x\<bar> < 2 powi (j + 52 + 1)"
      unfolding ax b using k(2) u by (intro mult_strict_right_mono) simp_all
    show "?x / 2 powi (j + 52 - 52) = real_of_int k" by simp
  qed
qed

lemma round64_idem: "round64 (round64 x) = round64 x"
proof -
  have pos: "round64 (round64 x) = round64 x" if "0 < x" for x
  proof -
    let ?u = "(2::real) powi (expo x - 52)"
    let ?K = "round_even (x / ?u)"
    from that have nz: "x \<noteq> 0" by simp
    have r: "round64 x = of_int ?K * ?u" using nz by (simp add: round64_def)
    have q0: "0 < x / ?u" using that by simp
    from scaled_bracket[OF expo_bracket[OF nz]] q0
    have q: "2 ^ 52 \<le> x / ?u" "x / ?u < 2 ^ 53" by simp_all
    have "round_even (of_int (2 ^ 52)) \<le> ?K"
      by (rule round_even_mono) (use q in simp)
    then have lo: "2 ^ 52 \<le> ?K" by (simp only: round_even_of_int)
    have "?K \<le> round_even (of_int (2 ^ 53))"
      by (rule round_even_mono) (use q in simp)
    then have hi: "?K \<le> 2 ^ 53" by (simp only: round_even_of_int)
    show ?thesis unfolding r by (rule round64_repr_pos[OF lo hi])
  qed
  consider "0 < x" | "x = 0" | "x < 0" by linarith
  then show ?thesis
  proof cases
    case 1
    then show ?thesis by (rule pos)
  next
    case 2
    then show ?thesis by simp
  next
    case 3
    then have "round64 (round64 (- x)) = round64 (- x)" by (intro pos) simp
    then show ?thesis by (simp add: round64_minus)
  qed
qed

lemma round64_error:
  assumes "x \<noteq> 0"
  shows "\<bar>round64 x - x\<bar> \<le> 2 powi (expo x - 53)"
proof -
  let ?u = "(2::real) powi (expo x - 52)"
  have u: "0 < ?u" by simp
  have "round64 x - x = (of_int (round_even (x / ?u)) - x / ?u) * ?u"
    using assms u by (simp add: round64_def algebra_simps)
  then have "\<bar>round64 x - x\<bar> = \<bar>of_int (round_even (x / ?u)) - x / ?u\<bar> * ?u"
    using u by (simp add: abs_mult)
  also have "\<dots> \<le> 1 / 2 * ?u"
    using round_even_error[of "x / ?u"] u by (intro mult_right_mono) simp_all
  also have "\<dots> = 2 powi (expo x - 53)"
  proof -
    have "expo x - 52 = (expo x - 53) + 1" by simp
    then have "?u = 2 powi (expo x - 53) * 2 powi 1"
      by (metis power_int_add zero_neq_numeral)
    then show ?thesis by simp
  qed
  finally show ?thesis .
qed

section \<open>The mood decision\<close>

lemma fadd_0_right: "fadd x 0 = round64 x" by (simp add: fadd_def)
lemma fadd_0_left: "fadd 0 x = round64 x" by (simp add: fadd_def)
lemma fmul_1_left: "fmul 1 x = round64 x" by (simp add: fmul_def)
lemma fmul_0_left: "fmul 0 x = 0" by (simp add: fmul_def)
lemma fdiv_0_left: "fdiv 0 x = 0" by (simp add: fdiv_def)
lemma fsub_self: "fsub x x = 0" by (simp add: fsub_def)

lemma round64_weights:
  "round64 weightHue = weightHue" "round64 weightSaturation = weightSaturation"
  "round64 weightLightness = weightLightness"
  "round64 (fadd x y) = fadd x y"
  by (simp_all add: weightHue_def weightSaturation_def weightLightness_def fadd_def round64_idem)

lemma totalScore_table:
  "totalScore (h, s, l) =
     (if 50 \<le> h \<and> h \<le> 220
      then if minSaturation \<le> s
           then if minLightness \<le> l
                then fadd (fadd weightHue weightSaturation) weightLightness
                else fadd weightHue weightSaturation
           else if minLightness \<le> l then fadd weightHue weightLightness else weightHue
      else if minSaturation \<le> s
           then if minLightness \<le> l then fadd weightSaturation weightLightness
                else weightSaturation
           else if minLightness \<le> l then weightLightness else 0)"
  by (simp add: totalScore_def Let_def happyHueRange_min_def happyHueRange_max_def
        fadd_0_right fadd_0_left fmul_1_left fmul_0_left round64_weights)

text \<open>The weights, the threshold and the sums of weights, as binary64 numbers.\<close>

lemma weightHue_val: "weightHue = (3152519739159347 / 4503599627370496)"
  unfolding weightHue_def
  by (subst round64_eval[where e = "- 1"]) (simp_all add: round_even_def Let_def)

lemma weightSaturation_val: "weightSaturation = (3602879701896397 / 18014398509481984)"
  unfolding weightSaturation_def
  by (subst round64_eval[where e = "- 3"]) (simp_all add: round_even_def Let_def)

lemma weightLightness_val: "weightLightness = (3602879701896397 / 36028797018963968)"
  unfolding weightLightness_def
  by (subst round64_eval[where e = "- 4"]) (simp_all add: round_even_def Let_def)

lemma threshold_val: "threshold = (5404319552844595 / 9007199254740992)"
  unfolding threshold_def
  by (subst round64_eval[where e = "- 1"]) (simp_all add: round_even_def Let_def)

lemma minLightness_val: "minLightness = (5404319552844595 / 9007199254740992)"
  unfolding minLightness_def
  by (subst round64_eval[where e = "- 1"]) (simp_all add: round_even_def Let_def)

lemma sum_sl: "fadd (3602879701896397 / 18014398509481984) (3602879701896397 / 36028797018963968) = (1351079888211149 / 4503599627370496)"
  unfolding fadd_def
  by (subst round64_eval[where e = "- 2"]) (simp_all add: round_even_def Let_def)

lemma sum_hl: "fadd (3152519739159347 / 4503599627370496) (3602879701896397 / 36028797018963968) = (7205759403792793 / 9007199254740992)"
  unfolding fadd_def
  by (subst round64_eval[where e = "- 1"]) (simp_all add: round_even_def Let_def)

lemma sum_hs: "fadd (3152519739159347 / 4503599627370496) (3602879701896397 / 18014398509481984) = (2026619832316723 / 2251799813685248)"
  unfolding fadd_def
  by (subst round64_eval[where e = "- 1"]) (simp_all add: round_even_def Let_def)

lemma sum_hsl: "fadd (2026619832316723 / 2251799813685248) (3602879701896397 / 36028797018963968) = (9007199254740991 / 9007199254740992)"
  unfolding fadd_def
  by (subst round64_eval[where e = "- 1"]) (simp_all add: round_even_def Let_def)

text \<open>
  \<open>rgbToHsl\<close> in binary64 at four colours, operation by operation. At (1, 15, 43) the
  hue is 220.00000000000003 and at (33, 28, 3) it is 49.99999999999999, where the
  transform over the reals gives 220 and 50.
\<close>

lemma ca_r: "fdiv 255 255 = 1"
  unfolding fdiv_def
  by (subst round64_eval[where e = "0"]) (simp_all add: round_even_def Let_def)

lemma ca_g: "fdiv 128 255 = (282578800148737 / 562949953421312)"
  unfolding fdiv_def
  by (subst round64_eval[where e = "- 1"]) (simp_all add: round_even_def Let_def)

lemma ca_b: "fdiv 128 255 = (282578800148737 / 562949953421312)"
  unfolding fdiv_def
  by (subst round64_eval[where e = "- 1"]) (simp_all add: round_even_def Let_def)

lemma ca_sum: "fadd 1 (282578800148737 / 562949953421312) = (845528753570049 / 562949953421312)"
  unfolding fadd_def
  by (subst round64_eval[where e = "0"]) (simp_all add: round_even_def Let_def)

lemma ca_l: "fdiv (845528753570049 / 562949953421312) 2 = (845528753570049 / 1125899906842624)"
  unfolding fdiv_def
  by (subst round64_eval[where e = "- 1"]) (simp_all add: round_even_def Let_def)

lemma ca_d: "fsub 1 (282578800148737 / 562949953421312) = (280371153272575 / 562949953421312)"
  unfolding fsub_def
  by (subst round64_eval[where e = "- 2"]) (simp_all add: round_even_def Let_def)

lemma ca_two: "fsub 2 1 = 1"
  unfolding fsub_def
  by (subst round64_eval[where e = "0"]) (simp_all add: round_even_def Let_def)

lemma ca_den: "fsub 1 (282578800148737 / 562949953421312) = (280371153272575 / 562949953421312)"
  unfolding fsub_def
  by (subst round64_eval[where e = "- 2"]) (simp_all add: round_even_def Let_def)

lemma ca_s: "fdiv (280371153272575 / 562949953421312) (280371153272575 / 562949953421312) = 1"
  unfolding fdiv_def
  by (subst round64_eval[where e = "0"]) (simp_all add: round_even_def Let_def)

lemma ca_n: "fsub (282578800148737 / 562949953421312) (282578800148737 / 562949953421312) = 0"
  by (simp add: fsub_def)

lemma ca_q: "fdiv 0 (280371153272575 / 562949953421312) = 0"
  by (simp add: fdiv_def)

lemma ca_h: "fadd 0 0 = 0"
  by (simp add: fadd_def)

lemma ca_h60: "fmul 0 60 = 0"
  by (simp add: fmul_def)

lemma hsl_255_128_128:
  "rgbToHsl64 255 128 128 =
     (0, 1, (845528753570049 / 1125899906842624))"
  by (simp add: rgbToHsl64_def Let_def ca_r ca_g ca_b ca_sum ca_l ca_d ca_two ca_den ca_s ca_n ca_q ca_h ca_h60)

lemma cb_r: "fdiv 100 255 = (7064470003718425 / 18014398509481984)"
  unfolding fdiv_def
  by (subst round64_eval[where e = "- 2"]) (simp_all add: round_even_def Let_def)

lemma cb_g: "fdiv 120 255 = (4238682002231055 / 9007199254740992)"
  unfolding fdiv_def
  by (subst round64_eval[where e = "- 2"]) (simp_all add: round_even_def Let_def)

lemma cb_b: "fdiv 100 255 = (7064470003718425 / 18014398509481984)"
  unfolding fdiv_def
  by (subst round64_eval[where e = "- 2"]) (simp_all add: round_even_def Let_def)

lemma cb_sum: "fadd (4238682002231055 / 9007199254740992) (7064470003718425 / 18014398509481984) = (1942729251022567 / 2251799813685248)"
  unfolding fadd_def
  by (subst round64_eval[where e = "- 1"]) (simp_all add: round_even_def Let_def)

lemma cb_l: "fdiv (1942729251022567 / 2251799813685248) 2 = (1942729251022567 / 4503599627370496)"
  unfolding fdiv_def
  by (subst round64_eval[where e = "- 2"]) (simp_all add: round_even_def Let_def)

lemma cb_d: "fsub (4238682002231055 / 9007199254740992) (7064470003718425 / 18014398509481984) = (1412894000743685 / 18014398509481984)"
  unfolding fsub_def
  by (subst round64_eval[where e = "- 4"]) (simp_all add: round_even_def Let_def)

lemma cb_s: "fdiv (1412894000743685 / 18014398509481984) (1942729251022567 / 2251799813685248) = (6550690367084357 / 72057594037927936)"
  unfolding fdiv_def
  by (subst round64_eval[where e = "- 4"]) (simp_all add: round_even_def Let_def)

lemma cb_n: "fsub (7064470003718425 / 18014398509481984) (7064470003718425 / 18014398509481984) = 0"
  by (simp add: fsub_def)

lemma cb_q: "fdiv 0 (1412894000743685 / 18014398509481984) = 0"
  by (simp add: fdiv_def)

lemma cb_h: "fadd 0 2 = 2"
  unfolding fadd_def
  by (subst round64_eval[where e = "1"]) (simp_all add: round_even_def Let_def)

lemma cb_h60: "fmul 2 60 = 120"
  unfolding fmul_def
  by (subst round64_eval[where e = "6"]) (simp_all add: round_even_def Let_def)

lemma hsl_100_120_100:
  "rgbToHsl64 100 120 100 =
     (120, (6550690367084357 / 72057594037927936), (1942729251022567 / 4503599627370496))"
  by (simp add: rgbToHsl64_def Let_def cb_r cb_g cb_b cb_sum cb_l cb_d cb_s cb_n cb_q cb_h cb_h60)

lemma cc_r: "fdiv 1 255 = (282578800148737 / 72057594037927936)"
  unfolding fdiv_def
  by (subst round64_eval[where e = "- 8"]) (simp_all add: round_even_def Let_def)

lemma cc_g: "fdiv 15 255 = (4238682002231055 / 72057594037927936)"
  unfolding fdiv_def
  by (subst round64_eval[where e = "- 5"]) (simp_all add: round_even_def Let_def)

lemma cc_b: "fdiv 43 255 = (3037722101598923 / 18014398509481984)"
  unfolding fdiv_def
  by (subst round64_eval[where e = "- 3"]) (simp_all add: round_even_def Let_def)

lemma cc_sum: "fadd (3037722101598923 / 18014398509481984) (282578800148737 / 72057594037927936) = (3108366801636107 / 18014398509481984)"
  unfolding fadd_def
  by (subst round64_eval[where e = "- 3"]) (simp_all add: round_even_def Let_def)

lemma cc_l: "fdiv (3108366801636107 / 18014398509481984) 2 = (3108366801636107 / 36028797018963968)"
  unfolding fdiv_def
  by (subst round64_eval[where e = "- 4"]) (simp_all add: round_even_def Let_def)

lemma cc_d: "fsub (3037722101598923 / 18014398509481984) (282578800148737 / 72057594037927936) = (2967077401561739 / 18014398509481984)"
  unfolding fsub_def
  by (subst round64_eval[where e = "- 3"]) (simp_all add: round_even_def Let_def)

lemma cc_s: "fdiv (2967077401561739 / 18014398509481984) (3108366801636107 / 18014398509481984) = (8597781106798221 / 9007199254740992)"
  unfolding fdiv_def
  by (subst round64_eval[where e = "- 1"]) (simp_all add: round_even_def Let_def)

lemma cc_n: "fsub (282578800148737 / 72057594037927936) (4238682002231055 / 72057594037927936) = (- (1978051601041159 / 36028797018963968))"
  unfolding fsub_def
  by (subst round64_eval[where e = "- 5"]) (simp_all add: round_even_def Let_def)

lemma cc_q: "fdiv (- (1978051601041159 / 36028797018963968)) (2967077401561739 / 18014398509481984) = (- (1501199875790165 / 4503599627370496))"
  unfolding fdiv_def
  by (subst round64_eval[where e = "- 2"]) (simp_all add: round_even_def Let_def)

lemma cc_h: "fadd (- (1501199875790165 / 4503599627370496)) 4 = (4128299658422955 / 1125899906842624)"
  unfolding fadd_def
  by (subst round64_eval[where e = "1"]) (simp_all add: round_even_def Let_def)

lemma cc_h60: "fmul (4128299658422955 / 1125899906842624) 60 = (7740561859543041 / 35184372088832)"
  unfolding fmul_def
  by (subst round64_eval[where e = "7"]) (simp_all add: round_even_def Let_def)

lemma hsl_1_15_43:
  "rgbToHsl64 1 15 43 =
     ((7740561859543041 / 35184372088832), (8597781106798221 / 9007199254740992), (3108366801636107 / 36028797018963968))"
  by (simp add: rgbToHsl64_def Let_def cc_r cc_g cc_b cc_sum cc_l cc_d cc_s cc_n cc_q cc_h cc_h60)

lemma cd_r: "fdiv 33 255 = (4662550202454161 / 36028797018963968)"
  unfolding fdiv_def
  by (subst round64_eval[where e = "- 3"]) (simp_all add: round_even_def Let_def)

lemma cd_g: "fdiv 28 255 = (1978051601041159 / 18014398509481984)"
  unfolding fdiv_def
  by (subst round64_eval[where e = "- 4"]) (simp_all add: round_even_def Let_def)

lemma cd_b: "fdiv 3 255 = (847736400446211 / 72057594037927936)"
  unfolding fdiv_def
  by (subst round64_eval[where e = "- 7"]) (simp_all add: round_even_def Let_def)

lemma cd_sum: "fadd (4662550202454161 / 36028797018963968) (847736400446211 / 72057594037927936) = (2543209201338633 / 18014398509481984)"
  unfolding fadd_def
  by (subst round64_eval[where e = "- 3"]) (simp_all add: round_even_def Let_def)

lemma cd_l: "fdiv (2543209201338633 / 18014398509481984) 2 = (2543209201338633 / 36028797018963968)"
  unfolding fdiv_def
  by (subst round64_eval[where e = "- 4"]) (simp_all add: round_even_def Let_def)

lemma cd_d: "fsub (4662550202454161 / 36028797018963968) (847736400446211 / 72057594037927936) = (8477364004462111 / 72057594037927936)"
  unfolding fsub_def
  by (subst round64_eval[where e = "- 4"]) (simp_all add: round_even_def Let_def)

lemma cd_s: "fdiv (8477364004462111 / 72057594037927936) (2543209201338633 / 18014398509481984) = (1876499844737707 / 2251799813685248)"
  unfolding fdiv_def
  by (subst round64_eval[where e = "- 1"]) (simp_all add: round_even_def Let_def)

lemma cd_n: "fsub (1978051601041159 / 18014398509481984) (847736400446211 / 72057594037927936) = (7064470003718425 / 72057594037927936)"
  unfolding fsub_def
  by (subst round64_eval[where e = "- 4"]) (simp_all add: round_even_def Let_def)

lemma cd_q: "fdiv (7064470003718425 / 72057594037927936) (8477364004462111 / 72057594037927936) = (3752999689475413 / 4503599627370496)"
  unfolding fdiv_def
  by (subst round64_eval[where e = "- 1"]) (simp_all add: round_even_def Let_def)

lemma cd_h: "fadd (3752999689475413 / 4503599627370496) 0 = (3752999689475413 / 4503599627370496)"
  unfolding fadd_def
  by (subst round64_eval[where e = "- 1"]) (simp_all add: round_even_def Let_def)

lemma cd_h60: "fmul (3752999689475413 / 4503599627370496) 60 = (7036874417766399 / 140737488355328)"
  unfolding fmul_def
  by (subst round64_eval[where e = "5"]) (simp_all add: round_even_def Let_def)

lemma hsl_33_28_3:
  "rgbToHsl64 33 28 3 =
     ((7036874417766399 / 140737488355328), (1876499844737707 / 2251799813685248), (2543209201338633 / 36028797018963968))"
  by (simp add: rgbToHsl64_def Let_def cd_r cd_g cd_b cd_sum cd_l cd_d cd_s cd_n cd_q cd_h cd_h60)

lemmas score_simps = weightHue_val weightSaturation_val weightLightness_val
  sum_sl sum_hl sum_hs sum_hsl

text \<open>
  Claim C3, amended. \<open>isHappyColorHSL\<close> returns true exactly when the hue that
  \<open>rgbToHsl\<close> computes lies in \<open>[50, 220]\<close>. With the hue in range the score is at
  least the weight 0.7, which is not below the threshold 0.6. Without it the score is at
  most the binary64 sum of 0.2 and 0.1, which is 5404319552844596 / 2^54 =
  0.30000000000000004 and is below the threshold. Both bounds are reached: the colour
  (255, 128, 128) has hue 0 and the score 0.30000000000000004, the colour (100, 120, 100)
  has hue 120 and the score 0.7.
\<close>

theorem happy_iff_hue:
  fixes col :: color
  defines "hsl \<equiv> rgbToHsl64 (r col) (g col) (b col)"
  shows "(isHappyColorHSL col \<longleftrightarrow> 50 \<le> fst hsl \<and> fst hsl \<le> 220) \<and>
         (50 \<le> fst hsl \<and> fst hsl \<le> 220 \<longrightarrow> weightHue \<le> totalScore hsl) \<and>
         (\<not> (50 \<le> fst hsl \<and> fst hsl \<le> 220) \<longrightarrow>
            totalScore hsl \<le> fadd weightSaturation weightLightness) \<and>
         fadd weightSaturation weightLightness = 5404319552844596 / 2 ^ 54 \<and>
         fadd weightSaturation weightLightness < threshold \<and>
         threshold \<le> weightHue \<and>
         fst (rgbToHsl64 255 128 128) = 0 \<and>
         totalScore (rgbToHsl64 255 128 128) = fadd weightSaturation weightLightness \<and>
         fst (rgbToHsl64 100 120 100) = 120 \<and>
         totalScore (rgbToHsl64 100 120 100) = weightHue"
proof -
  obtain hh ss ll where e: "hsl = (hh, ss, ll)" by (cases hsl)
  have hi: "weightHue \<le> totalScore hsl" if "50 \<le> hh \<and> hh \<le> 220"
    using that unfolding e totalScore_table
    by (simp add: score_simps)
  have lo: "totalScore hsl \<le> fadd weightSaturation weightLightness"
    if "\<not> (50 \<le> hh \<and> hh \<le> 220)"
    using that unfolding e totalScore_table
    by (simp add: score_simps)
  have m: "fadd weightSaturation weightLightness < threshold"
    by (simp add: score_simps threshold_val)
  have t: "threshold \<le> weightHue"
    by (simp add: threshold_val weightHue_val)
  have "isHappyColorHSL col \<longleftrightarrow> threshold \<le> totalScore hsl"
    unfolding isHappyColorHSL_def hsl_def ..
  also have "\<dots> \<longleftrightarrow> 50 \<le> hh \<and> hh \<le> 220"
  proof (cases "50 \<le> hh \<and> hh \<le> 220")
    case True
    with hi t show ?thesis by simp
  next
    case False
    with lo m show ?thesis by simp
  qed
  finally have "isHappyColorHSL col \<longleftrightarrow> 50 \<le> hh \<and> hh \<le> 220" .
  then have p1: "isHappyColorHSL col \<longleftrightarrow> 50 \<le> fst hsl \<and> fst hsl \<le> 220"
    unfolding e by simp
  have p2: "50 \<le> fst hsl \<and> fst hsl \<le> 220 \<longrightarrow> weightHue \<le> totalScore hsl"
    using hi unfolding e by simp
  have p3: "\<not> (50 \<le> fst hsl \<and> fst hsl \<le> 220) \<longrightarrow>
      totalScore hsl \<le> fadd weightSaturation weightLightness"
    using lo unfolding e by simp
  have p4: "fadd weightSaturation weightLightness = 5404319552844596 / 2 ^ 54"
    by (simp add: score_simps)
  have p7: "fst (rgbToHsl64 255 128 128) = 0" by (simp add: hsl_255_128_128)
  have p8: "totalScore (rgbToHsl64 255 128 128) = fadd weightSaturation weightLightness"
    unfolding hsl_255_128_128 totalScore_table
    by (simp add: minSaturation_def minLightness_val)
  have p9: "fst (rgbToHsl64 100 120 100) = 120" by (simp add: hsl_100_120_100)
  have p10: "totalScore (rgbToHsl64 100 120 100) = weightHue"
    unfolding hsl_100_120_100 totalScore_table
    by (simp add: minSaturation_def minLightness_val)
  show ?thesis
    by (intro conjI) (fact p1 p2 p3 p4 m t p7 p8 p9 p10)+
qed

theorem happy_iff_hue_witness:
  "\<not> isHappyColorHSL \<lparr>r = 255, g = 128, b = 128\<rparr> \<and>
   totalScore (rgbToHsl64 255 128 128) = 5404319552844596 / 2 ^ 54 \<and>
   isHappyColorHSL \<lparr>r = 100, g = 120, b = 100\<rparr> \<and>
   totalScore (rgbToHsl64 100 120 100) = 3152519739159347 / 2 ^ 52 \<and>
   fst (rgbToHsl64 1 15 43) = 7740561859543041 / 2 ^ 45 \<and>
   \<not> isHappyColorHSL \<lparr>r = 1, g = 15, b = 43\<rparr> \<and>
   fst (rgbToHsl64 33 28 3) = 7036874417766399 / 2 ^ 47 \<and>
   \<not> isHappyColorHSL \<lparr>r = 33, g = 28, b = 3\<rparr>"
  using happy_iff_hue[of "\<lparr>r = 255, g = 128, b = 128\<rparr>"]
    happy_iff_hue[of "\<lparr>r = 100, g = 120, b = 100\<rparr>"]
    happy_iff_hue[of "\<lparr>r = 1, g = 15, b = 43\<rparr>"]
    happy_iff_hue[of "\<lparr>r = 33, g = 28, b = 3\<rparr>"]
  by (simp add: score_simps hsl_1_15_43 hsl_33_28_3)

text \<open>
  Claim C3 as stated fails in its last part: the colour (255, 128, 128) has hue 0, outside
  \<open>[50, 220]\<close>, and its score is above 0.3, read as the real number or as the binary64
  number nearest to it.
\<close>

theorem score_without_hue_exceeds_three_tenths:
  "\<not> (50 \<le> fst (rgbToHsl64 255 128 128) \<and> fst (rgbToHsl64 255 128 128) \<le> 220) \<and>
   3 / 10 < totalScore (rgbToHsl64 255 128 128) \<and>
   round64 (3 / 10) < totalScore (rgbToHsl64 255 128 128)"
proof -
  have a: "fst (rgbToHsl64 255 128 128) = 0" by (simp add: hsl_255_128_128)
  have b: "totalScore (rgbToHsl64 255 128 128) = 1351079888211149 / 4503599627370496"
    unfolding hsl_255_128_128 totalScore_table
    by (simp add: minSaturation_def minLightness_val score_simps)
  have c: "round64 (3 / 10) = 5404319552844595 / 2 ^ 54"
    by (subst round64_eval[where e = "- 2"]) (simp_all add: round_even_def Let_def)
  show ?thesis unfolding a b c by simp
qed

section \<open>The range of the conversion in binary64\<close>

text \<open>The bounds of the conversion also hold of the value that the double-precision
  operations return, for every colour with integer channels in 0..255: rounding is monotone
  and keeps 0, 1, 2, 5, 60 and 300 fixed, two distinct channels differ by more than 1/256
  after the division by 255, so that a negative hue ratio stays below -1/256 and the hue
  stays below 360 after the shift by 6 and the scaling by 60.\<close>

lemma round64_consts:
  "round64 1 = 1" "round64 2 = 2" "round64 3 = 3" "round64 5 = 5"
  "round64 60 = 60" "round64 180 = 180" "round64 300 = 300"
  "round64 (1535 / 256) = 1535 / 256" "round64 (23025 / 64) = 23025 / 64"
  "round64 (1 / 256) = 1 / 256"
proof -
  show "round64 1 = 1"
    by (rule round64_exact[where e = 0 and k = "2 ^ 52"]) simp_all
  show "round64 2 = 2"
    by (rule round64_exact[where e = 1 and k = "2 ^ 52"]) simp_all
  show "round64 3 = 3"
    by (rule round64_exact[where e = 1 and k = "3 * 2 ^ 51"]) simp_all
  show "round64 5 = 5"
    by (rule round64_exact[where e = 2 and k = "5 * 2 ^ 50"]) simp_all
  show "round64 60 = 60"
    by (rule round64_exact[where e = 5 and k = "60 * 2 ^ 47"]) simp_all
  show "round64 180 = 180"
    by (rule round64_exact[where e = 7 and k = "180 * 2 ^ 45"]) simp_all
  show "round64 300 = 300"
    by (rule round64_exact[where e = 8 and k = "300 * 2 ^ 44"]) simp_all
  show "round64 (1535 / 256) = 1535 / 256"
    by (rule round64_exact[where e = 2 and k = "1535 * 2 ^ 42"]) simp_all
  show "round64 (23025 / 64) = 23025 / 64"
    by (rule round64_exact[where e = 8 and k = "23025 * 2 ^ 38"]) simp_all
  show "round64 (1 / 256) = 1 / 256"
    by (rule round64_exact[where e = "- 8" and k = "2 ^ 52"]) simp_all
qed

lemma round64_between:
  assumes "lo \<le> x" "x \<le> hi" "round64 lo = lo" "round64 hi = hi"
  shows "lo \<le> round64 x" "round64 x \<le> hi"
  using round64_mono[OF assms(1)] round64_mono[OF assms(2)] assms(3,4) by simp_all

lemma unit_error:
  assumes "0 \<le> y" "y \<le> 1"
  shows "\<bar>round64 y - y\<bar> \<le> 1 / 2 ^ 54"
proof -
  consider "y = 0" | "y = 1" | "0 < y" "y < 1" using assms by linarith
  then show ?thesis
  proof cases
    case 1
    then show ?thesis by simp
  next
    case 2
    then show ?thesis by (simp add: round64_consts)
  next
    case 3
    then have nz: "y \<noteq> 0" by simp
    have "2 powi expo y \<le> \<bar>y\<bar>" by (rule expo_bracket[OF nz])
    with 3 have "(2::real) powi expo y < 2 powi 0" by simp
    then have "expo y < 0" by (rule power_int_le_imp_less_exp[rotated]) simp_all
    then have "expo y - 53 \<le> - 54" by simp
    then have "(2::real) powi (expo y - 53) \<le> 2 powi (- 54)"
      by (intro power_int_increasing) simp_all
    with round64_error[OF nz] show ?thesis by (simp add: power_int_minus field_simps)
  qed
qed

lemma chan_bounds:
  assumes "n \<le> 255"
  shows "0 \<le> fdiv (real n) 255" "fdiv (real n) 255 \<le> 1"
proof -
  have "0 \<le> real n / 255" "real n / 255 \<le> 1" using assms by simp_all
  from round64_between[OF this] show "0 \<le> fdiv (real n) 255" "fdiv (real n) 255 \<le> 1"
    by (simp_all add: fdiv_def round64_consts)
qed

lemma chan_mono: "n \<le> m \<Longrightarrow> fdiv (real n) 255 \<le> fdiv (real m) 255"
  unfolding fdiv_def by (rule round64_mono) (simp add: divide_right_mono)

lemma chan_gap:
  assumes "n < m" "m \<le> 255"
  shows "fdiv (real n) 255 + 1 / 256 \<le> fdiv (real m) 255"
proof -
  have n: "0 \<le> real n / 255" "real n / 255 \<le> 1" using assms by simp_all
  have m: "0 \<le> real m / 255" "real m / 255 \<le> 1" using assms by simp_all
  have "real n + 1 \<le> real m" using assms(1) by linarith
  then have gap: "real n / 255 + 1 / 255 \<le> real m / 255" by (simp add: field_simps)
  have a: "\<bar>round64 (real n / 255) - real n / 255\<bar> \<le> 1 / 18014398509481984"
    using unit_error[OF n] by simp
  have b: "\<bar>round64 (real m / 255) - real m / 255\<bar> \<le> 1 / 18014398509481984"
    using unit_error[OF m] by simp
  show ?thesis unfolding fdiv_def using a b gap by linarith
qed

lemma chan_less_imp:
  assumes "fdiv (real n) 255 < fdiv (real m) 255" "m \<le> 255"
  shows "fdiv (real n) 255 + 1 / 256 \<le> fdiv (real m) 255"
proof -
  have "n < m"
  proof (rule ccontr)
    assume "\<not> n < m"
    then have "m \<le> n" by simp
    from chan_mono[OF this] assms(1) show False by simp
  qed
  then show ?thesis using assms(2) by (rule chan_gap)
qed

lemma ratio_signed:
  fixes n d :: real
  assumes "0 < d" "- d \<le> n" "n \<le> d"
  shows "- 1 \<le> n / d" "n / d \<le> 1"
  using assms by (simp_all add: field_simps)

lemma sector_ratio:
  fixes p q mn mx :: real
  assumes "mn < mx" "mn \<le> p" "p \<le> mx" "mn \<le> q" "q \<le> mx"
  shows "- 1 \<le> fdiv (fsub p q) (fsub mx mn)" "fdiv (fsub p q) (fsub mx mn) \<le> 1"
proof -
  have d: "0 < fsub mx mn" unfolding fsub_def using assms(1) by (intro round64_pos) simp
  have "- (mx - mn) \<le> p - q" using assms by linarith
  then have a: "round64 (- (mx - mn)) \<le> fsub p q"
    unfolding fsub_def by (rule round64_mono)
  have "p - q \<le> mx - mn" using assms by linarith
  then have b: "fsub p q \<le> fsub mx mn"
    unfolding fsub_def by (rule round64_mono)
  have "round64 (- (mx - mn)) = - fsub mx mn"
    unfolding fsub_def by (rule round64_minus)
  with a b have n: "- fsub mx mn \<le> fsub p q" "fsub p q \<le> fsub mx mn"
    by (simp_all only:)
  have "- 1 \<le> fsub p q / fsub mx mn" "fsub p q / fsub mx mn \<le> 1"
    by (rule ratio_signed[OF d n])+
  from round64_mono[OF this(1)] round64_mono[OF this(2)]
  show "- 1 \<le> fdiv (fsub p q) (fsub mx mn)" "fdiv (fsub p q) (fsub mx mn) \<le> 1"
    by (simp_all add: fdiv_def round64_minus round64_consts)
qed

lemma sector_nonneg:
  fixes p q d :: real
  assumes "0 < d" "q \<le> p"
  shows "0 \<le> fdiv (fsub p q) d"
proof -
  have "0 \<le> p - q" using assms by simp
  from round64_mono[OF this] have "0 \<le> fsub p q" by (simp add: fsub_def)
  then have "0 \<le> fsub p q / d" using assms(1) by simp
  from round64_mono[OF this] show ?thesis by (simp add: fdiv_def)
qed

lemma sector_negative:
  fixes p q d :: real
  assumes "0 < d" "d \<le> 1" "p + 1 / 256 \<le> q"
  shows "fdiv (fsub p q) d \<le> - (1 / 256)"
proof -
  have "p - q \<le> - (1 / 256)" using assms by simp
  from round64_mono[OF this] have n: "fsub p q \<le> - (1 / 256)"
    by (simp add: fsub_def round64_minus round64_consts)
  have "fsub p q / d \<le> fsub p q"
  proof -
    have "fsub p q \<le> 0" using n by simp
    moreover have "0 \<le> 1 - d" using assms(2) by simp
    ultimately have "fsub p q * (1 - d) \<le> 0" by (rule mult_nonpos_nonneg)
    then have "fsub p q \<le> fsub p q * d" by (simp add: algebra_simps)
    then show ?thesis using assms(1) by (simp add: pos_divide_le_eq)
  qed
  with n have "fsub p q / d \<le> - (1 / 256)" by linarith
  from round64_mono[OF this] show ?thesis
    by (simp add: fdiv_def round64_minus round64_consts)
qed

lemma scale_hue:
  assumes "lo \<le> h" "h \<le> hi" "round64 (lo * 60) = lo * 60" "round64 (hi * 60) = hi * 60"
  shows "lo * 60 \<le> fmul h 60" "fmul h 60 \<le> hi * 60"
proof -
  have "lo * 60 \<le> h * 60" "h * 60 \<le> hi * 60" using assms by simp_all
  from round64_between[OF this assms(3,4)]
  show "lo * 60 \<le> fmul h 60" "fmul h 60 \<le> hi * 60" by (simp_all add: fmul_def)
qed

lemma shift_hue:
  assumes "lo \<le> t" "t \<le> hi" "round64 (lo + c) = lo + c" "round64 (hi + c) = hi + c"
  shows "lo + c \<le> fadd t c" "fadd t c \<le> hi + c"
proof -
  have "lo + c \<le> t + c" "t + c \<le> hi + c" using assms by simp_all
  from round64_between[OF this assms(3,4)]
  show "lo + c \<le> fadd t c" "fadd t c \<le> hi + c" by (simp_all add: fadd_def)
qed

lemma rgbToHsl64_range:
  fixes rn gn bn :: nat
  assumes rng: "rn \<le> 255" "gn \<le> 255" "bn \<le> 255"
    and res: "rgbToHsl64 (real rn) (real gn) (real bn) = (hh, ss, ll)"
  shows "0 \<le> hh \<and> hh < 360 \<and> 0 \<le> ss \<and> ss \<le> 1 \<and> 0 \<le> ll \<and> ll \<le> 1"
proof -
  define x where "x = fdiv (real rn) 255"
  define y where "y = fdiv (real gn) 255"
  define z where "z = fdiv (real bn) 255"
  define mx where "mx = max (max x y) z"
  define mn where "mn = min (min x y) z"
  have x: "0 \<le> x" "x \<le> 1" and y: "0 \<le> y" "y \<le> 1" and z: "0 \<le> z" "z \<le> 1"
    using chan_bounds rng by (simp_all add: x_def y_def z_def)
  have b: "mn \<le> x" "x \<le> mx" "mn \<le> y" "y \<le> mx" "mn \<le> z" "z \<le> mx"
    by (simp_all add: mx_def mn_def)
  have m: "0 \<le> mn" "mx \<le> 1" "mn \<le> mx"
    using x y z by (simp_all add: mx_def mn_def)
  define d where "d = fsub mx mn"
  define hraw where "hraw = (if mx = x then fadd (fdiv (fsub y z) d) (if y < z then 6 else 0)
                       else if mx = y then fadd (fdiv (fsub z x) d) 2
                       else if mx = z then fadd (fdiv (fsub x y) d) 4
                       else 0)"
  define sraw where "sraw = (if fdiv (fadd mx mn) 2 > 0.5 then fdiv d (fsub (fsub 2 mx) mn)
                       else fdiv d (fadd mx mn))"
  have form: "rgbToHsl64 (real rn) (real gn) (real bn) =
      (if mx \<noteq> mn then (fmul hraw 60, sraw, fdiv (fadd mx mn) 2)
       else (0, 0, fdiv (fadd mx mn) 2))"
    unfolding rgbToHsl64_def Let_def x_def[symmetric] y_def[symmetric] z_def[symmetric]
      mx_def[symmetric] mn_def[symmetric] d_def[symmetric] hraw_def sraw_def ..
  have l: "ll = fdiv (fadd mx mn) 2"
    using res unfolding form by (cases "mx = mn") simp_all
  have "0 \<le> mx + mn" "mx + mn \<le> 2" using m by simp_all
  from round64_between[OF this] have s2: "0 \<le> fadd mx mn" "fadd mx mn \<le> 2"
    by (simp_all add: fadd_def round64_consts)
  then have "0 \<le> fadd mx mn / 2" "fadd mx mn / 2 \<le> 1" by simp_all
  from round64_between[OF this] have lr: "0 \<le> ll" "ll \<le> 1"
    by (simp_all add: l fdiv_def round64_consts)
  show ?thesis
  proof (cases "mx = mn")
    case True
    with res have "hh = 0" "ss = 0" unfolding form by simp_all
    with lr show ?thesis by simp
  next
    case False
    with m have lt: "mn < mx" by simp
    have d0: "0 < d" unfolding d_def fsub_def using lt by (intro round64_pos) simp
    have "mx - mn \<le> 1" using m by simp
    from round64_mono[OF this] have d1: "d \<le> 1"
      by (simp add: d_def fsub_def round64_consts)
    from res False have hh: "hh = fmul hraw 60" and ss: "ss = sraw"
      unfolding form by simp_all
    have sr: "0 \<le> ss \<and> ss \<le> 1"
    proof -
      have den: "d \<le> den \<Longrightarrow> 0 \<le> fdiv d den \<and> fdiv d den \<le> 1" for den
      proof -
        assume "d \<le> den"
        with d0 have "0 \<le> d / den" "d / den \<le> 1" by simp_all
        from round64_between[OF this] show ?thesis
          by (simp add: fdiv_def round64_consts)
      qed
      show ?thesis
      proof (cases "fdiv (fadd mx mn) 2 > 0.5")
        case True
        have "1 \<le> 2 - mx" using m by simp
        from round64_mono[OF this] have "1 \<le> fsub 2 mx"
          by (simp add: fsub_def round64_consts)
        with m have "mx - mn \<le> fsub 2 mx - mn" by simp
        from round64_mono[OF this] have "d \<le> fsub (fsub 2 mx) mn"
          by (simp add: d_def fsub_def)
        from den[OF this] True show ?thesis by (simp add: ss sraw_def)
      next
        case False
        have "mx - mn \<le> mx + mn" using m by simp
        from round64_mono[OF this] have "d \<le> fadd mx mn"
          by (simp add: d_def fsub_def fadd_def)
        from den[OF this] False show ?thesis by (simp add: ss sraw_def)
      qed
    qed
    have hr: "0 \<le> hh \<and> hh \<le> 23025 / 64"
    proof (cases "mx = x")
      case mxx: True
      show ?thesis
      proof (cases "y < z")
        case True
        with mxx have h: "hraw = fadd (fdiv (fsub y z) d) 6" by (simp add: hraw_def)
        have "y + 1 / 256 \<le> z"
          using True rng(3) unfolding y_def z_def by (rule chan_less_imp)
        from sector_negative[OF d0 d1 this]
        have t2: "fdiv (fsub y z) d \<le> - (1 / 256)" .
        have t1: "- 1 \<le> fdiv (fsub y z) d"
          unfolding d_def by (rule sector_ratio[OF lt b(3) b(4) b(5) b(6)])
        have "- 1 + 6 \<le> fadd (fdiv (fsub y z) d) 6"
          "fadd (fdiv (fsub y z) d) 6 \<le> - (1 / 256) + 6"
          by (rule shift_hue[OF t1 t2]; simp add: round64_consts)+
        then have "5 \<le> hraw" "hraw \<le> 1535 / 256" unfolding h by simp_all
        from scale_hue[OF this] have "5 * 60 \<le> hh" "hh \<le> 1535 / 256 * 60"
          by (simp_all add: hh round64_consts)
        then show ?thesis by simp
      next
        case False
        with mxx have h: "hraw = fadd (fdiv (fsub y z) d) 0" by (simp add: hraw_def)
        from False have "z \<le> y" by simp
        from sector_nonneg[OF d0 this] have t1: "0 \<le> fdiv (fsub y z) d" .
        have t2: "fdiv (fsub y z) d \<le> 1"
          unfolding d_def by (rule sector_ratio[OF lt b(3) b(4) b(5) b(6)])
        have "0 + 0 \<le> fadd (fdiv (fsub y z) d) 0" "fadd (fdiv (fsub y z) d) 0 \<le> 1 + 0"
          by (rule shift_hue[OF t1 t2]; simp add: round64_consts)+
        then have "0 \<le> hraw" "hraw \<le> 1" unfolding h by simp_all
        from scale_hue[OF this] have "0 * 60 \<le> hh" "hh \<le> 1 * 60"
          by (simp_all add: hh round64_consts)
        then show ?thesis by simp
      qed
    next
      case nx: False
      show ?thesis
      proof (cases "mx = y")
        case True
        with nx have h: "hraw = fadd (fdiv (fsub z x) d) 2" by (simp add: hraw_def)
        have t: "- 1 \<le> fdiv (fsub z x) d" "fdiv (fsub z x) d \<le> 1"
          unfolding d_def by (rule sector_ratio[OF lt b(5) b(6) b(1) b(2)])+
        have "- 1 + 2 \<le> fadd (fdiv (fsub z x) d) 2" "fadd (fdiv (fsub z x) d) 2 \<le> 1 + 2"
          by (rule shift_hue[OF t]; simp add: round64_consts)+
        then have "1 \<le> hraw" "hraw \<le> 3" unfolding h by simp_all
        from scale_hue[OF this] have "1 * 60 \<le> hh" "hh \<le> 3 * 60"
          by (simp_all add: hh round64_consts)
        then show ?thesis by simp
      next
        case False
        have "mx = x \<or> mx = y \<or> mx = z" by (auto simp: mx_def max_def)
        with nx False have "mx = z" by simp
        with nx False have h: "hraw = fadd (fdiv (fsub x y) d) 4" by (simp add: hraw_def)
        have t: "- 1 \<le> fdiv (fsub x y) d" "fdiv (fsub x y) d \<le> 1"
          unfolding d_def by (rule sector_ratio[OF lt b(1) b(2) b(3) b(4)])+
        have "- 1 + 4 \<le> fadd (fdiv (fsub x y) d) 4" "fadd (fdiv (fsub x y) d) 4 \<le> 1 + 4"
          by (rule shift_hue[OF t]; simp add: round64_consts)+
        then have "3 \<le> hraw" "hraw \<le> 5" unfolding h by simp_all
        from scale_hue[OF this] have "3 * 60 \<le> hh" "hh \<le> 5 * 60"
          by (simp_all add: hh round64_consts)
        then show ?thesis by simp
      qed
    qed
    from hr have "hh < 360" by simp
    with hr sr lr show ?thesis by simp
  qed
qed


section \<open>The validation path\<close>

lemma check_cols_error:
  "check_cols x hi y w buf = Inl e \<Longrightarrow>
   e = Error ''Image has non-transparent pixels outside the circle.''"
proof (induction x hi y w buf rule: check_cols.induct)
  case (1 x hi y w buf)
  from "1.prems" show ?case
    by (subst (asm) check_cols.simps) (auto split: if_splits intro: "1.IH")
qed

lemma check_rows_error:
  "check_rows y w h rad cx cy buf = Inl e \<Longrightarrow>
   e = Error ''Image has non-transparent pixels outside the circle.''"
proof (induction y w h rad cx cy buf rule: check_rows.induct)
  case (1 y w h rad cx cy buf)
  from "1.prems" show ?case
    by (subst (asm) check_rows.simps)
       (auto split: if_splits option.splits sum.splits
             dest: check_cols_error intro: "1.IH")
qed

lemma checkIfCircular_error:
  "fst (checkIfCircular lib buf w h) = Inl e \<Longrightarrow>
   e = Error ''Image has non-transparent pixels outside the circle.''"
  unfolding checkIfCircular_def Let_def by (simp add: check_rows_error)

lemma checkIfCircular_cases:
  "fst (checkIfCircular lib buf w h) = Inr () \<or>
   fst (checkIfCircular lib buf w h) =
     Inl (Error ''Image has non-transparent pixels outside the circle.'')"
proof (cases "fst (checkIfCircular lib buf w h)")
  case (Inl e)
  with checkIfCircular_error[OF Inl] show ?thesis by simp
next
  case (Inr u)
  then show ?thesis by simp
qed

lemma checkIfCircular_buffer: "snd (checkIfCircular lib buf w h) = buf"
  by (simp add: checkIfCircular_def Let_def)

lemma checkImage_unfold:
  "checkImage lib md buf st =
     (if width md > 512 \<or> height md > 512
      then Inl (Error ''Image dimensions exceed 512x512 pixels.'')
      else if fst (checkIfCircular lib buf (width md) (height md)) \<noteq> Inr ()
      then Inl (Error ''Image has non-transparent pixels outside the circle.'')
      else if \<not> detectHappiness lib buf
      then Inl (Error ''Image does not convey a happy feeling.'')
      else Inr (console_log ''Image is valid, circular, and conveys a happy feeling.'' st))"
proof -
  obtain res buf' where c: "checkIfCircular lib buf (width md) (height md) = (res, buf')"
    by (cases "checkIfCircular lib buf (width md) (height md)")
  have b: "buf' = buf" using checkIfCircular_buffer[of lib buf "width md" "height md"] c by simp
  have r: "res = Inr () \<or> res = Inl (Error ''Image has non-transparent pixels outside the circle.'')"
    using checkIfCircular_cases[of lib buf "width md" "height md"] c by simp
  from r show ?thesis
    unfolding checkImage_def c b by auto
qed

text \<open>
  Claim C6. The dimension check rejects an image exactly when its width or its height
  exceeds 512: \<open>checkImage\<close> fails with the oversize error if and only if
  \<open>width > 512\<close> or \<open>height > 512\<close>, whatever the pixels and the dominant colour
  are, so an oversize image fails before circularity or mood are looked at, and a 512 by
  512 image never fails with this error.
\<close>

theorem dimension_check:
  "checkImage lib md imageBuffer st = Inl (Error ''Image dimensions exceed 512x512 pixels.'')
   \<longleftrightarrow> width md > 512 \<or> height md > 512"
  unfolding checkImage_unfold by simp

theorem dimension_check_witness:
  "checkImage id_lib \<lparr>format = ''png'', width = 512, height = 512\<rparr> [] one_file
     \<noteq> Inl (Error ''Image dimensions exceed 512x512 pixels.'') \<and>
   checkImage id_lib \<lparr>format = ''png'', width = 513, height = 513\<rparr> [] one_file
     = Inl (Error ''Image dimensions exceed 512x512 pixels.'') \<and>
   checkImage id_lib \<lparr>format = ''png'', width = 513, height = 2\<rparr> [] one_file
     = Inl (Error ''Image dimensions exceed 512x512 pixels.'') \<and>
   checkImage id_lib \<lparr>format = ''png'', width = 2, height = 513\<rparr> [] one_file
     = Inl (Error ''Image dimensions exceed 512x512 pixels.'')"
  using dimension_check[of id_lib "\<lparr>format = ''png'', width = 512, height = 512\<rparr>" "[]" one_file]
    dimension_check[of id_lib "\<lparr>format = ''png'', width = 513, height = 513\<rparr>" "[]" one_file]
    dimension_check[of id_lib "\<lparr>format = ''png'', width = 513, height = 2\<rparr>" "[]" one_file]
    dimension_check[of id_lib "\<lparr>format = ''png'', width = 2, height = 513\<rparr>" "[]" one_file]
  by simp

text \<open>
  Claim C7. With \<open>--check\<close>, on a file that exists and whose metadata can be read, the
  stages run in the order format, dimensions, circularity, mood; the first stage that
  fails decides the outcome, whatever the later stages would say; the outcome is one line
  on the error stream, with that stage's message, or, when all four stages pass, the one
  confirmation line on the output stream.
\<close>

theorem validation_order:
  assumes "files st filepath = Some img" and "check opts"
    and "width (readMetadata lib img) \<noteq> 0" and "height (readMetadata lib img) \<noteq> 0"
  shows "action lib filepath opts st =
     (if format (readMetadata lib img) \<noteq> ''png''
      then console_error ''Validation failed: Image format is not PNG.'' st
      else if width (readMetadata lib img) > 512 \<or> height (readMetadata lib img) > 512
      then console_error ''Validation failed: Image dimensions exceed 512x512 pixels.'' st
      else if fst (checkIfCircular lib (toPng lib img)
                     (width (readMetadata lib img)) (height (readMetadata lib img))) \<noteq> Inr ()
      then console_error
             ''Validation failed: Image has non-transparent pixels outside the circle.'' st
      else if \<not> detectHappiness lib (toPng lib img)
      then console_error ''Validation failed: Image does not convey a happy feeling.'' st
      else console_log ''Image is valid, circular, and conveys a happy feeling.'' st)"
  using assms unfolding action_def action_body_def Let_def checkImage_unfold
  by simp

theorem validation_order_witness:
  "action id_lib ''badge.jpeg'' \<lparr>check = True\<rparr> one_file =
     \<lparr>files = [''badge.jpeg'' \<mapsto> []], stdout = [],
      stderr = [''Validation failed: Image format is not PNG.'']\<rparr>"
proof -
  have "files one_file ''badge.jpeg'' = Some []" by (simp add: one_file_def)
  moreover have "check \<lparr>check = True\<rparr>" by simp
  moreover have "width (readMetadata id_lib []) \<noteq> 0" "height (readMetadata id_lib []) \<noteq> 0"
    by (simp_all add: id_lib_def)
  ultimately show ?thesis
    using validation_order[of one_file "''badge.jpeg''" "[]" "\<lparr>check = True\<rparr>" id_lib]
    by (simp add: id_lib_def one_file_def console_error_def)
qed

text \<open>
  Claim C9. The circularity check leaves the image buffer as it found it, whether it
  succeeds or throws, and a run with \<open>--check\<close> leaves every file as it was: the input
  file is not modified and \<open>output.png\<close> is not written.
\<close>

theorem check_frame:
  "snd (checkIfCircular lib imageBuffer w h) = imageBuffer \<and>
   (check opts \<longrightarrow> files (action lib filepath opts st) = files st)"
proof
  show "snd (checkIfCircular lib imageBuffer w h) = imageBuffer"
    by (rule checkIfCircular_buffer)
next
  show "check opts \<longrightarrow> files (action lib filepath opts st) = files st"
    unfolding action_def action_body_def Let_def checkImage_unfold
    by (simp add: console_error_def console_log_def split: option.splits)
qed

theorem check_frame_witness:
  "snd (checkIfCircular id_lib [1, 2, 3, 4] 1 1) = [1, 2, 3, 4] \<and>
   files (action id_lib ''badge.jpeg'' \<lparr>check = True\<rparr> one_file) = [''badge.jpeg'' \<mapsto> []]"
  using check_frame[of id_lib "[1, 2, 3, 4]" 1 1 "\<lparr>check = True\<rparr>" "''badge.jpeg''" one_file]
  by (simp add: one_file_def)

section \<open>The scanline mask on small images\<close>

lemma sqrt2_bounds: "1 < sqrt 2" "sqrt 2 < 3 / 2"
proof -
  show "1 < sqrt 2" by simp
  have "sqrt 2 < sqrt ((3 / 2)\<^sup>2)"
    by (subst real_sqrt_less_iff) (simp add: power2_eq_square)
  then show "sqrt 2 < 3 / 2" by simp
qed

lemma not_int_between:
  fixes x :: real and n :: int
  assumes "of_int n < x" "x < of_int n + 1"
  shows "x \<notin> \<int>"
proof
  assume "x \<in> \<int>"
  then obtain m where m: "x = of_int m" by (elim Ints_cases)
  with assms have "n < m" "m < n + 1" by simp_all
  then show False by simp
qed

lemma four_sqrt2: "5 < 4 * sqrt 2" "4 * sqrt 2 < 6"
proof -
  have "sqrt ((5 / 4)\<^sup>2) < sqrt 2"
    by (subst real_sqrt_less_iff) (simp add: power2_eq_square)
  then show "5 < 4 * sqrt 2" by simp
  show "4 * sqrt 2 < 6" using sqrt2_bounds(2) by simp
qed

lemma valid_index_Ints: "valid_index buf i \<Longrightarrow> i \<in> \<int>"
  unfolding valid_index_def by (metis Ints_of_int)

lemma index_Ints:
  assumes "(real y * real w + x) * real RGBA_CHANNELS + real ALPHA_OFFSET \<in> \<int>"
  shows "4 * x \<in> \<int>"
proof -
  let ?i = "(real y * real w + x) * real RGBA_CHANNELS + real ALPHA_OFFSET"
  have "4 * x = ?i - of_int (4 * (int y * int w) + 3)"
    by (simp add: RGBA_CHANNELS_def ALPHA_OFFSET_def algebra_simps)
  also have "\<dots> \<in> \<int>" using assms by (intro Ints_diff Ints_of_int)
  finally show ?thesis .
qed

lemma next_frac: "4 * x \<notin> \<int> \<Longrightarrow> 4 * (x + 1) \<notin> \<int>"
proof
  assume a: "4 * x \<notin> \<int>" and b: "4 * (x + 1) \<in> \<int>"
  have "4 * x = 4 * (x + 1) - of_int 4" by simp
  also have "\<dots> \<in> \<int>" using b by (intro Ints_diff Ints_of_int)
  finally show False using a by simp
qed

text \<open>
  Claim C1, at the 3 by 3 and the 5 by 5 image. In row 1 of the 3 by 3 image the interval
  \<open>[left, right)\<close> contains column 1, yet the generator leaves that pixel's alpha, and
  every other byte of the buffer, at 0: the loop variable starts at the fractional
  \<open>left\<close>, so no index it computes is an integer. In row 1 of the 5 by 5 image
  \<open>left\<close> is 0.5, the indices are integers that are 1 modulo 4, and the generator sets
  the green channel of pixel (1, 1) to 255.
\<close>

theorem scanline_mask_small:
  "interior 3 3 1 1 \<and> createCircularMask 3 3 ! (4 * (1 * 3 + 1) + 3) = 0 \<and>
   createCircularMask 3 3 = replicate 36 0 \<and>
   createCircularMask 5 5 ! (4 * (1 * 5 + 1) + 1) = 255"
proof -
  have "3 / 2 - sqrt 2 \<le> 1 \<and> 1 < 3 / 2 + sqrt 2"
    using sqrt2_bounds by linarith
  then have i: "interior 3 3 1 1"
    by (simp add: interior_def js_sqrt_def Let_def)
  have m: "createCircularMask 3 3 = replicate 36 0"
    unfolding scan_closed_form by code_simp
  have "scan_px 5 5 1 1 1 = 255" by code_simp
  moreover have "createCircularMask 5 5 ! (4 * (1 * 5 + 1) + 1) = scan_px 5 5 1 1 1"
    by (rule scan_nth) simp_all
  ultimately have g: "createCircularMask 5 5 ! (4 * (1 * 5 + 1) + 1) = 255" by simp
  from i m g show ?thesis by simp
qed

section \<open>The indices the scanline generator computes\<close>

lemma mask_cols_fold:
  "mask_cols x hi y w c = fold (\<lambda>i buf. buf_write buf i 255) (mask_cols_indices x hi y w) c"
proof (induction x hi y w c rule: mask_cols.induct)
  case (1 x hi y w c)
  show ?case
  proof (cases "x < hi")
    case False
    then show ?thesis
      by (subst mask_cols.simps, subst mask_cols_indices.simps) simp
  next
    case True
    from "1.IH"[OF True refl] True show ?thesis
      by (subst mask_cols.simps, subst mask_cols_indices.simps) (simp add: Let_def)
  qed
qed

lemma mask_rows_fold:
  "mask_rows y w h rad cx cy c =
     fold (\<lambda>i buf. buf_write buf i 255) (mask_rows_indices y w h rad cx cy) c"
proof (induction y w h rad cx cy c rule: mask_rows.induct)
  case (1 y w h rad cx cy c)
  show ?case
  proof (cases "y < h")
    case False
    then show ?thesis
      by (subst mask_rows.simps, subst mask_rows_indices.simps) simp
  next
    case True
    from "1.IH"[OF True] True show ?thesis
      by (subst mask_rows.simps, subst mask_rows_indices.simps)
         (simp add: mask_cols_fold split: option.splits)
  qed
qed

lemma createCircularMask_fold:
  "createCircularMask w h =
     fold (\<lambda>i buf. buf_write buf i 255) (createCircularMask_indices w h)
       (alloc (w * h * RGBA_CHANNELS))"
  by (simp add: createCircularMask_def createCircularMask_indices_def Let_def mask_rows_fold)

lemma mask_cols_indices_row:
  assumes "1 < s" "s < 3 / 2"
  shows "mask_cols_indices (3 / 2 - s) (3 / 2 + s) y 3 =
     [real y * 12 + 9 - 4 * s, real y * 12 + 13 - 4 * s, real y * 12 + 17 - 4 * s]"
proof -
  have a: "3 / 2 - s < 3 / 2 + s" "3 / 2 - s + 1 < 3 / 2 + s" "3 / 2 - s + 1 + 1 < 3 / 2 + s"
    "\<not> 3 / 2 - s + 1 + 1 + 1 < 3 / 2 + s"
    using assms by simp_all
  have "mask_cols_indices (3 / 2 - s + 1 + 1 + 1) (3 / 2 + s) y 3 = []"
    using a(4) by (subst mask_cols_indices.simps) simp
  then have "mask_cols_indices (3 / 2 - s + 1 + 1) (3 / 2 + s) y 3 = [real y * 12 + 17 - 4 * s]"
    using a(3) by (subst mask_cols_indices.simps)
      (simp add: Let_def RGBA_CHANNELS_def ALPHA_OFFSET_def algebra_simps)
  then have "mask_cols_indices (3 / 2 - s + 1) (3 / 2 + s) y 3 =
      [real y * 12 + 13 - 4 * s, real y * 12 + 17 - 4 * s]"
    using a(2) by (subst mask_cols_indices.simps)
      (simp add: Let_def RGBA_CHANNELS_def ALPHA_OFFSET_def algebra_simps)
  then show ?thesis
    using a(1) by (subst mask_cols_indices.simps)
      (simp add: Let_def RGBA_CHANNELS_def ALPHA_OFFSET_def algebra_simps)
qed

lemma indices_3x3:
  "createCircularMask_indices 3 3 =
     [21 - 4 * sqrt 2, 25 - 4 * sqrt 2, 29 - 4 * sqrt 2,
      33 - 4 * sqrt 2, 37 - 4 * sqrt 2, 41 - 4 * sqrt 2]"
proof -
  have r0: "js_sqrt (3 / 2 * (3 / 2) - (real 0 - 3 / 2) * (real 0 - 3 / 2)) = Some 0"
    by (simp add: js_sqrt_def)
  have r1: "js_sqrt (3 / 2 * (3 / 2) - (real 1 - 3 / 2) * (real 1 - 3 / 2)) = Some (sqrt 2)"
    by (simp add: js_sqrt_def)
  have r2: "js_sqrt (3 / 2 * (3 / 2) - (real 2 - 3 / 2) * (real 2 - 3 / 2)) = Some (sqrt 2)"
    by (simp add: js_sqrt_def)
  have e: "mask_cols_indices (3 / 2 - 0) (3 / 2 + 0) 0 3 = []"
    by (subst mask_cols_indices.simps) simp
  note row = mask_cols_indices_row[OF sqrt2_bounds]
  have "mask_rows_indices 3 3 3 (3 / 2) (3 / 2) (3 / 2) = []"
    by (subst mask_rows_indices.simps) simp
  then have "mask_rows_indices 2 3 3 (3 / 2) (3 / 2) (3 / 2) =
      [33 - 4 * sqrt 2, 37 - 4 * sqrt 2, 41 - 4 * sqrt 2]"
    using r2 row[of 2] by (subst mask_rows_indices.simps) simp
  then have "mask_rows_indices 1 3 3 (3 / 2) (3 / 2) (3 / 2) =
      [21 - 4 * sqrt 2, 25 - 4 * sqrt 2, 29 - 4 * sqrt 2,
       33 - 4 * sqrt 2, 37 - 4 * sqrt 2, 41 - 4 * sqrt 2]"
    using r1 row[of 1] by (subst mask_rows_indices.simps) (simp add: numeral_2_eq_2)
  then have "mask_rows_indices 0 3 3 (3 / 2) (3 / 2) (3 / 2) =
      [21 - 4 * sqrt 2, 25 - 4 * sqrt 2, 29 - 4 * sqrt 2,
       33 - 4 * sqrt 2, 37 - 4 * sqrt 2, 41 - 4 * sqrt 2]"
    using r0 e by (subst mask_rows_indices.simps) simp
  then show ?thesis by (simp add: createCircularMask_indices_def)
qed

lemma frac_4sqrt2: "real_of_int n - 4 * sqrt 2 \<notin> \<int>"
proof -
  have "of_int (n - 6) < real_of_int n - 4 * sqrt 2"
    "real_of_int n - 4 * sqrt 2 < of_int (n - 6) + 1"
    using four_sqrt2 by simp_all
  then show ?thesis by (rule not_int_between)
qed

text \<open>
  Claim C10, at the 3 by 3 image. The mask generator computes six indices, all of the
  form \<open>n - 4 * sqrt 2\<close>: none is an integer, none is a valid index of the buffer, and
  every write is dropped.
\<close>

theorem mask_indices_3x3:
  "createCircularMask_indices 3 3 =
     [21 - 4 * sqrt 2, 25 - 4 * sqrt 2, 29 - 4 * sqrt 2,
      33 - 4 * sqrt 2, 37 - 4 * sqrt 2, 41 - 4 * sqrt 2] \<and>
   filter (valid_index (alloc (3 * 3 * RGBA_CHANNELS))) (createCircularMask_indices 3 3) = [] \<and>
   createCircularMask 3 3 =
     fold (\<lambda>i buf. buf_write buf i 255) (createCircularMask_indices 3 3)
       (alloc (3 * 3 * RGBA_CHANNELS))"
proof -
  have nv: "\<not> valid_index buf (real_of_int n - 4 * sqrt 2)" for buf n
    using frac_4sqrt2 valid_index_Ints by blast
  have "filter (valid_index (alloc (3 * 3 * RGBA_CHANNELS))) (createCircularMask_indices 3 3) = []"
    unfolding indices_3x3
    using nv[of _ 21] nv[of _ 25] nv[of _ 29] nv[of _ 33] nv[of _ 37] nv[of _ 41]
    by simp
  then show ?thesis using indices_3x3 createCircularMask_fold[of 3 3] by simp
qed

section \<open>The circularity check on small images\<close>

lemma check_cols_frac:
  "4 * x \<notin> \<int> \<Longrightarrow> check_cols x hi y w buf = Inr ()"
proof (induction x hi y w buf rule: check_cols.induct)
  case (1 x hi y w buf)
  show ?case
  proof (cases "x < hi")
    case False
    then show ?thesis by (subst check_cols.simps) simp
  next
    case True
    let ?i = "(real y * real w + x) * real RGBA_CHANNELS + real ALPHA_OFFSET"
    have "\<not> valid_index buf ?i"
      using "1.prems" valid_index_Ints index_Ints by blast
    then have v: "\<not> visible (buf_read buf ?i)" by (simp add: buf_read_def visible_def)
    from "1.IH"[OF True v next_frac[OF "1.prems"]]
    show ?thesis using True v by (subst check_cols.simps) simp
  qed
qed

lemma check_cols_step:
  "x < hi \<Longrightarrow> check_cols x hi y w buf =
     (if visible (buf_read buf ((real y * real w + x) * 4 + 3))
      then Inl (Error ''Image has non-transparent pixels outside the circle.'')
      else check_cols (x + 1) hi y w buf)"
  by (subst check_cols.simps) (simp add: RGBA_CHANNELS_def ALPHA_OFFSET_def)

lemma check_cols_stop: "\<not> x < hi \<Longrightarrow> check_cols x hi y w buf = Inr ()"
  by (subst check_cols.simps) simp

lemma check_left_3:
  assumes "1 < s" "s < 3 / 2"
  shows "check_cols 0 (3 / 2 - s) y 3 buf =
     (if visible (buf_read buf (real y * 12 + 3))
      then Inl (Error ''Image has non-transparent pixels outside the circle.'')
      else Inr ())"
proof -
  have a: "(0::real) < 3 / 2 - s" "\<not> (0::real) + 1 < 3 / 2 - s" using assms by simp_all
  show ?thesis
    unfolding check_cols_step[OF a(1)] check_cols_stop[OF a(2)]
    by (simp add: algebra_simps)
qed

lemma check_right_3:
  "check_cols (3 / 2 + sqrt 2) 3 y 3 buf = Inr ()"
proof (rule check_cols_frac)
  have "4 * (3 / 2 + sqrt 2) = - (real_of_int (- 6) - 4 * sqrt 2)" by simp
  moreover have "real_of_int (- 6) - 4 * sqrt 2 \<notin> \<int>" by (rule frac_4sqrt2)
  ultimately show "4 * (3 / 2 + sqrt 2) \<notin> \<int>" by (metis Ints_minus minus_minus)
qed

lemma check_row0_left:
  "check_cols 0 (3 / 2 - 0) 0 3 buf =
     (if visible (buf_read buf 3)
      then Inl (Error ''Image has non-transparent pixels outside the circle.'')
      else if visible (buf_read buf 7)
      then Inl (Error ''Image has non-transparent pixels outside the circle.'')
      else Inr ())"
proof -
  have a: "(0::real) < 3 / 2 - 0" "(0::real) + 1 < 3 / 2 - 0" "\<not> (0::real) + 1 + 1 < 3 / 2 - 0"
    by simp_all
  show ?thesis
    unfolding check_cols_step[OF a(1)] check_cols_step[OF a(2)] check_cols_stop[OF a(3)]
    by simp
qed

lemma check_row0_right:
  "check_cols (3 / 2 + 0) (real 3) 0 3 buf =
     (if visible (buf_read buf 9)
      then Inl (Error ''Image has non-transparent pixels outside the circle.'')
      else if visible (buf_read buf 13)
      then Inl (Error ''Image has non-transparent pixels outside the circle.'')
      else Inr ())"
proof -
  have a: "(3 / 2 + 0 :: real) < real 3" "(3 / 2 + 0 :: real) + 1 < real 3"
    "\<not> (3 / 2 + 0 :: real) + 1 + 1 < real 3"
    by simp_all
  show ?thesis
    unfolding check_cols_step[OF a(1)] check_cols_step[OF a(2)] check_cols_stop[OF a(3)]
    by simp
qed

lemma check_rows_3x3:
  "check_rows 0 3 3 (3 / 2) (3 / 2) (3 / 2) raw =
     (if visible (buf_read raw 3) \<or> visible (buf_read raw 7) \<or> visible (buf_read raw 9) \<or>
         visible (buf_read raw 13) \<or> visible (buf_read raw 15) \<or> visible (buf_read raw 27)
      then Inl (Error ''Image has non-transparent pixels outside the circle.'')
      else Inr ())"
proof -
  have r0: "js_sqrt (3 / 2 * (3 / 2) - (real 0 - 3 / 2) * (real 0 - 3 / 2)) = Some 0"
    by (simp add: js_sqrt_def)
  have r1: "js_sqrt (3 / 2 * (3 / 2) - (real 1 - 3 / 2) * (real 1 - 3 / 2)) = Some (sqrt 2)"
    by (simp add: js_sqrt_def)
  have r2: "js_sqrt (3 / 2 * (3 / 2) - (real 2 - 3 / 2) * (real 2 - 3 / 2)) = Some (sqrt 2)"
    by (simp add: js_sqrt_def)
  note left = check_left_3[OF sqrt2_bounds]
  have s3: "check_rows 3 3 3 (3 / 2) (3 / 2) (3 / 2) raw = Inr ()"
    by (subst check_rows.simps) simp
  have s2: "check_rows 2 3 3 (3 / 2) (3 / 2) (3 / 2) raw =
      (if visible (buf_read raw 27)
       then Inl (Error ''Image has non-transparent pixels outside the circle.'') else Inr ())"
    using r2 left[of 2 raw] s3
    by (subst check_rows.simps) (simp add: check_right_3)
  have s1: "check_rows 1 3 3 (3 / 2) (3 / 2) (3 / 2) raw =
      (if visible (buf_read raw 15) \<or> visible (buf_read raw 27)
       then Inl (Error ''Image has non-transparent pixels outside the circle.'') else Inr ())"
    using r1 left[of 1 raw] s2
    by (subst check_rows.simps) (simp add: check_right_3 numeral_2_eq_2)
  show ?thesis
    using r0 check_row0_left[of raw] check_row0_right[of raw] s1
    by (subst check_rows.simps) simp
qed

lemma checkIfCircular_3x3:
  "fst (checkIfCircular lib imageBuffer 3 3) =
     (let raw = toRaw lib imageBuffer
      in if visible (buf_read raw 3) \<or> visible (buf_read raw 7) \<or> visible (buf_read raw 9) \<or>
            visible (buf_read raw 13) \<or> visible (buf_read raw 15) \<or> visible (buf_read raw 27)
         then Inl (Error ''Image has non-transparent pixels outside the circle.'')
         else Inr ())"
  using check_rows_3x3[of "toRaw lib imageBuffer"]
  by (simp add: checkIfCircular_def Let_def)

lemma read_byte:
  "buf_read ((replicate 36 0)[k := v]) (real n) =
     (if n < 36 then Some (if n = k then v else 0) else None)"
  by (auto simp: buf_read_def valid_index_def)

lemma check_rows_1x2:
  "check_rows 0 1 2 (1 / 2) (1 / 2) 1 raw = Inr ()"
proof -
  have r0: "js_sqrt (1 / 2 * (1 / 2) - (real 0 - 1) * (real 0 - 1)) = None"
    by (simp add: js_sqrt_def)
  have "sqrt (1 / 4) = 1 / 2"
    by (rule real_sqrt_unique) (simp_all add: power2_eq_square)
  then have r1: "js_sqrt (1 / 2 * (1 / 2) - (real 1 - 1) * (real 1 - 1)) = Some (1 / 2)"
    by (simp add: js_sqrt_def)
  have s2: "check_rows 2 1 2 (1 / 2) (1 / 2) 1 raw = Inr ()"
    by (subst check_rows.simps) simp
  have s1: "check_rows 1 1 2 (1 / 2) (1 / 2) 1 raw = Inr ()"
    using r1 s2 by (subst check_rows.simps) (simp add: check_cols_stop numeral_2_eq_2)
  show ?thesis
    using r0 s1 by (subst check_rows.simps) simp
qed

text \<open>
  Claim C2, on three images. A 3 by 3 image whose only visible pixel is (2, 0), outside
  the circle on the right of row 0, passes the check: the right loop of row 0 starts at
  1.5 and reads bytes 9 and 13, green channels, and never the alpha of pixel (2, 0). A
  fully transparent 3 by 3 image whose pixel (2, 0) has green 255 is rejected, though no
  exterior pixel has alpha above 50. A 1 by 2 image whose pixel (0, 0), in a row outside
  the circle's vertical extent, is opaque passes the check: in that row both bounds are
  \<open>NaN\<close> and no pixel is read.
\<close>

theorem circularity_check_misses:
  "exterior_violation ((replicate 36 0)[11 := 255]) 3 3 \<and>
   fst (checkIfCircular id_lib ((replicate 36 0)[11 := 255]) 3 3) = Inr () \<and>
   \<not> exterior_violation ((replicate 36 0)[9 := 255]) 3 3 \<and>
   fst (checkIfCircular id_lib ((replicate 36 0)[9 := 255]) 3 3) =
     Inl (Error ''Image has non-transparent pixels outside the circle.'') \<and>
   exterior_violation [0, 0, 0, 255, 0, 0, 0, 0] 1 2 \<and>
   fst (checkIfCircular id_lib [0, 0, 0, 255, 0, 0, 0, 0] 1 2) = Inr ()"
proof -
  have "\<not> interior 1 2 0 0"
    by (simp add: interior_def Let_def js_sqrt_def)
  moreover have "unat (([0, 0, 0, 255, 0, 0, 0, 0] :: buffer) ! (4 * (0 * 1 + 0) + 3)) > 50"
    by simp
  ultimately have e: "exterior_violation [0, 0, 0, 255, 0, 0, 0, 0] 1 2"
    unfolding exterior_violation_def by (intro exI[of _ 0] conjI) simp_all
  have f: "fst (checkIfCircular id_lib [0, 0, 0, 255, 0, 0, 0, 0] 1 2) = Inr ()"
    using check_rows_1x2 by (simp add: checkIfCircular_def Let_def)
  have "\<not> interior 3 3 0 2"
    by (simp add: interior_def Let_def js_sqrt_def)
  moreover have "unat (((replicate 36 0)[11 := 255] :: buffer) ! (4 * (0 * 3 + 2) + 3)) > 50"
    by simp
  ultimately have a: "exterior_violation ((replicate 36 0)[11 := 255]) 3 3"
    unfolding exterior_violation_def by (intro exI[of _ 0] exI[of _ 2] conjI) simp_all
  have rd: "buf_read ((replicate 36 0)[k := v]) (numeral n) =
     (if numeral n < (36::nat) then Some (if numeral n = k then v else 0) else None)" for k v n
    using read_byte[of k v "numeral n"] by simp
  have b: "fst (checkIfCircular id_lib ((replicate 36 0)[11 := 255]) 3 3) = Inr ()"
    unfolding checkIfCircular_3x3 by (simp add: id_lib_def rd visible_def)
  have "unat (((replicate 36 0)[9 := 255] :: buffer) ! (4 * (y * 3 + x) + 3)) = 0"
    if "y < 3" "x < 3" for y x
  proof -
    have "4 * (y * 3 + x) + 3 \<noteq> 9" by presburger
    moreover have "4 * (y * 3 + x) + 3 < 36" using that by simp
    ultimately show ?thesis by simp
  qed
  then have c: "\<not> exterior_violation ((replicate 36 0)[9 := 255]) 3 3"
    unfolding exterior_violation_def by auto
  have d: "fst (checkIfCircular id_lib ((replicate 36 0)[9 := 255]) 3 3) =
     Inl (Error ''Image has non-transparent pixels outside the circle.'')"
    unfolding checkIfCircular_3x3 by (simp add: id_lib_def rd visible_def)
  from a b c d e f show ?thesis by simp
qed

section \<open>The two mask generators compared\<close>

lemma row_bounds_q:
  "row_bounds w h y =
     (case js_sqrt (real_of_int (row_q w h y) / 4) of
        None \<Rightarrow> None | Some s \<Rightarrow> Some (real w / 2 - s, real w / 2 + s))"
  unfolding row_bounds_def Let_def row_value row_q_def ..

lemma square_less_iff:
  fixes a n :: int
  assumes "0 \<le> n"
  shows "a\<^sup>2 < n * n \<longleftrightarrow> - n < a \<and> a < n"
proof -
  have "a\<^sup>2 < n\<^sup>2 \<longleftrightarrow> \<not> n\<^sup>2 \<le> a\<^sup>2" by auto
  also have "\<dots> \<longleftrightarrow> \<not> \<bar>n\<bar> \<le> \<bar>a\<bar>" by (simp only: abs_le_square_iff)
  also have "\<dots> \<longleftrightarrow> - n < a \<and> a < n" using assms by auto
  finally show ?thesis by (simp add: power2_eq_square)
qed

lemma masks_row_none:
  assumes "y < h" "x < w" "c < 4" and none: "row_bounds w h y = None"
  shows "createCircularMask w h ! (4 * (y * w + x) + c) = 0"
    "createCircularMask_pixel w h ! (4 * (y * w + x) + c) = 0"
proof -
  from none have "real_of_int (row_q w h y) / 4 < 0"
    unfolding row_bounds_q by (simp add: js_sqrt_def split: if_splits)
  then have q: "row_q w h y < 0" by simp
  have "int u * int u \<noteq> row_q w h y" for u
  proof
    assume "int u * int u = row_q w h y"
    moreover have "0 \<le> int u * int u" by simp
    ultimately show False using q by simp
  qed
  then have "exact_sqrt (row_q w h y) = None" by (simp add: exact_sqrt_None_iff)
  then show "createCircularMask w h ! (4 * (y * w + x) + c) = 0"
    unfolding scan_nth[OF assms(1-3)] by (simp add: scan_px_def)
  have "\<not> (2 * int x - int w)\<^sup>2 + (2 * int y - int h)\<^sup>2 < (int (min w h))\<^sup>2"
  proof
    assume "(2 * int x - int w)\<^sup>2 + (2 * int y - int h)\<^sup>2 < (int (min w h))\<^sup>2"
    moreover have "0 \<le> (2 * int x - int w)\<^sup>2" by simp
    ultimately have "0 < row_q w h y" unfolding row_q_def by linarith
    with q show False by simp
  qed
  then show "createCircularMask_pixel w h ! (4 * (y * w + x) + c) = 0"
    unfolding pixel_nth[OF assms(1-3)] by (simp add: pixel_px_def)
qed

lemma masks_row_int:
  assumes "y < h" "x < w" "c < 4"
    and some: "row_bounds w h y = Some (l, rt)" and int: "l \<in> \<int>"
  shows "if c = 3 \<and> real x = l \<and> real x < rt
     then createCircularMask w h ! (4 * (y * w + x) + c) = 255 \<and>
          createCircularMask_pixel w h ! (4 * (y * w + x) + c) = 0
     else createCircularMask w h ! (4 * (y * w + x) + c) =
          createCircularMask_pixel w h ! (4 * (y * w + x) + c)"
proof -
  from some obtain s where s: "js_sqrt (real_of_int (row_q w h y) / 4) = Some s"
    and l: "l = real w / 2 - s" and rt: "rt = real w / 2 + s"
    unfolding row_bounds_q by (auto split: option.splits)
  from s have v: "0 \<le> real_of_int (row_q w h y) / 4" and sv: "s = sqrt (real_of_int (row_q w h y) / 4)"
    by (auto simp: js_sqrt_def split: if_splits)
  from v sv have s0: "0 \<le> s" and ss: "s * s = real_of_int (row_q w h y) / 4" by simp_all
  from int obtain L :: int where L: "l = of_int L" by (elim Ints_cases)
  define n where "n = int w - 2 * L"
  have n: "real_of_int n = 2 * s" using l L by (simp add: n_def)
  with s0 have n0: "0 \<le> n" by linarith
  have "real_of_int (n * n) = real_of_int (row_q w h y)"
    using n ss by simp
  then have nq: "n * n = row_q w h y" by (simp only: of_int_eq_iff)
  define u where "u = nat n"
  have un: "int u = n" using n0 by (simp add: u_def)
  have e: "exact_sqrt (row_q w h y) = Some u"
    unfolding exact_sqrt_Some_iff un by (rule nq)
  have "even (int w + n)" by (simp add: n_def)
  then have ev: "even (w + u)" unfolding un[symmetric] by (metis even_of_nat of_nat_add)
  have scan: "createCircularMask w h ! (4 * (y * w + x) + c) =
      (if c = 3 \<and> int w \<le> 2 * int x + n \<and> 2 * int x < int w + n then 255 else 0)"
    unfolding scan_nth[OF assms(1-3)] scan_px_def e un[symmetric] using ev
    by (simp add: of_nat_le_iff[symmetric] of_nat_less_iff[symmetric] del: of_nat_le_iff of_nat_less_iff)
  have "(2 * int x - int w)\<^sup>2 + (2 * int y - int h)\<^sup>2 < (int (min w h))\<^sup>2 \<longleftrightarrow>
        (2 * int x - int w)\<^sup>2 < n * n"
    unfolding nq row_q_def by linarith
  also have "\<dots> \<longleftrightarrow> - n < 2 * int x - int w \<and> 2 * int x - int w < n"
    by (rule square_less_iff[OF n0])
  finally have pix: "createCircularMask_pixel w h ! (4 * (y * w + x) + c) =
      (if c = 3 \<and> int w < 2 * int x + n \<and> 2 * int x < int w + n then 255 else 0)"
    unfolding pixel_nth[OF assms(1-3)] pixel_px_def by (simp add: algebra_simps)
  have "real x = l \<longleftrightarrow> 2 * real x = real w - real_of_int n" using l n by argo
  also have "\<dots> \<longleftrightarrow> real_of_int (2 * int x + n) = real_of_int (int w)" by auto
  also have "\<dots> \<longleftrightarrow> 2 * int x + n = int w" by (rule of_int_eq_iff)
  finally have xl: "real x = l \<longleftrightarrow> 2 * int x + n = int w" .
  have "real x < rt \<longleftrightarrow> 2 * real x < real w + real_of_int n" using rt n by argo
  also have "\<dots> \<longleftrightarrow> real_of_int (2 * int x) < real_of_int (int w + n)" by auto
  also have "\<dots> \<longleftrightarrow> 2 * int x < int w + n" by (rule of_int_less_iff)
  finally have xr: "real x < rt \<longleftrightarrow> 2 * int x < int w + n" .
  show ?thesis unfolding scan pix xl xr by auto
qed

text \<open>
  Claim C4, amended. On a row whose left bound \<open>cx - sqrt (radius\<^sup>2 - (y - cy)\<^sup>2)\<close> is
  an integer, and on a row where \<open>radius\<^sup>2 - (y - cy)\<^sup>2\<close> is negative, the scanline
  generator and the per-pixel generator give every byte of the row's pixels the same
  value, except the alpha byte of the pixel at column \<open>x = left\<close> when
  \<open>left < right\<close>: there the scanline generator's byte is 255 and the per-pixel
  generator's byte is 0, the pixel being at distance exactly \<open>radius\<close> from the centre.
\<close>

theorem masks_agree_on_integer_rows:
  assumes "y < h" "x < w" "c < 4"
    and "case row_bounds w h y of None \<Rightarrow> True | Some (l, rt) \<Rightarrow> l \<in> \<int>"
  shows "if c = 3 \<and> (\<exists>rt. row_bounds w h y = Some (real x, rt) \<and> real x < rt)
     then createCircularMask w h ! (4 * (y * w + x) + c) = 255 \<and>
          createCircularMask_pixel w h ! (4 * (y * w + x) + c) = 0
     else createCircularMask w h ! (4 * (y * w + x) + c) =
          createCircularMask_pixel w h ! (4 * (y * w + x) + c)"
proof (cases "row_bounds w h y")
  case None
  with masks_row_none[OF assms(1-3) None] show ?thesis by simp
next
  case (Some p)
  obtain l rt where p: "p = (l, rt)" by (cases p)
  with Some assms(4) have "l \<in> \<int>" by simp
  from masks_row_int[OF assms(1-3) Some[unfolded p] this] show ?thesis
    unfolding Some p by (auto split: if_splits)
qed

text \<open>
  Claim C4 as stated fails at the 2 by 2 image: the scanline generator marks pixels
  (0, 1) and (1, 1), the per-pixel generator marks pixel (1, 1) only.
\<close>

theorem masks_differ_2x2: "createCircularMask 2 2 \<noteq> createCircularMask_pixel 2 2"
proof -
  have "createCircularMask 2 2 = [0,0,0,0, 0,0,0,0, 0,0,0,255, 0,0,0,255]"
    unfolding scan_closed_form by code_simp
  moreover have "createCircularMask_pixel 2 2 = [0,0,0,0, 0,0,0,0, 0,0,0,0, 0,0,0,255]"
    unfolding pixel_closed_form by code_simp
  ultimately show ?thesis by simp
qed

lemma row_bounds_2x2: "row_bounds 2 2 (Suc 0) = Some (0, 2)"
  by (simp add: row_bounds_def Let_def js_sqrt_def)

lemma row_bounds_10x10: "row_bounds 10 10 (Suc 0) = Some (2, 8)"
proof -
  have "sqrt 9 = 3" by (rule real_sqrt_unique) simp_all
  then show ?thesis by (simp add: row_bounds_def Let_def js_sqrt_def)
qed

theorem masks_agree_on_integer_rows_witness:
  "row_bounds 2 2 1 = Some (0, 2) \<and>
   createCircularMask 2 2 ! (4 * (1 * 2 + 0) + 3) = 255 \<and>
   createCircularMask_pixel 2 2 ! (4 * (1 * 2 + 0) + 3) = 0 \<and>
   createCircularMask 2 2 ! (4 * (1 * 2 + 1) + 3) =
     createCircularMask_pixel 2 2 ! (4 * (1 * 2 + 1) + 3) \<and>
   row_bounds 10 10 1 = Some (2, 8) \<and>
   createCircularMask 10 10 ! (4 * (1 * 10 + 2) + 3) = 255 \<and>
   createCircularMask_pixel 10 10 ! (4 * (1 * 10 + 2) + 3) = 0 \<and>
   createCircularMask 10 10 ! (4 * (1 * 10 + 3) + 3) =
     createCircularMask_pixel 10 10 ! (4 * (1 * 10 + 3) + 3) \<and>
   createCircularMask 10 10 ! (4 * (1 * 10 + 1) + 3) =
     createCircularMask_pixel 10 10 ! (4 * (1 * 10 + 1) + 3)"
  using masks_agree_on_integer_rows[of 1 2 0 2 3] masks_agree_on_integer_rows[of 1 2 1 2 3]
    masks_agree_on_integer_rows[of 1 10 2 10 3] masks_agree_on_integer_rows[of 1 10 3 10 3]
    masks_agree_on_integer_rows[of 1 10 1 10 3]
  by (simp add: row_bounds_2x2 row_bounds_10x10)

end
